theory Spec2Isabelle
  imports Main
begin

section \<open>Block extractor: \<open>extractCode\<close>\<close>

text \<open>
  Texts are \<open>string\<close>s. The characters the fence expression distinguishes (newline, space,
  backtick, the word characters) are all ASCII, so every other character is inert here.
\<close>

abbreviation NL :: char where "NL \<equiv> CHR 0x0A"

abbreviation BT :: char where "BT \<equiv> CHR 0x60"

definition isSpace :: "char \<Rightarrow> bool" where
  "isSpace c \<longleftrightarrow> c = CHR '' ''"

text \<open>The class \<open>\w\<close> of a regular expression without flags \<open>i\<close> or \<open>u\<close>: \<open>[A-Za-z0-9_]\<close>.\<close>

definition isWord :: "char \<Rightarrow> bool" where
  "isWord c \<longleftrightarrow>
     (let n = (of_char c :: nat)
      in (97 \<le> n \<and> n \<le> 122) \<or> (65 \<le> n \<and> n \<le> 90) \<or> (48 \<le> n \<and> n \<le> 57) \<or> n = 95)"

text \<open>
  The expression is \<open>/\n? *```\w* *\n?/g\<close>. \<open>fence\<close> matches its part after the optional
  leading newline, anchored at the head of \<open>s\<close>, and returns the length matched. The
  quantifiers are greedy: the spaces are taken as far as they go (giving one back cannot
  help, since a space is not a backtick), then three backticks are required, then
  \<open>tail_len\<close> takes the word characters, the spaces and one newline when present.
\<close>

definition tail_len :: "string \<Rightarrow> nat" where
  "tail_len r1 =
     (let w = length (takeWhile isWord r1); r2 = dropWhile isWord r1;
          k2 = length (takeWhile isSpace r2); r3 = dropWhile isSpace r2;
          n = (case r3 of c # _ \<Rightarrow> if c = NL then 1 else 0 | [] \<Rightarrow> 0)
      in w + k2 + n)"

definition fence :: "string \<Rightarrow> nat option" where
  "fence s =
     (let k = length (takeWhile isSpace s); r = dropWhile isSpace s
      in if take 3 r = [BT, BT, BT] then Some (k + 3 + tail_len (drop 3 r)) else None)"

text \<open>
  \<open>matchAt\<close> anchors the whole expression at the head of \<open>s\<close>: \<open>\n?\<close> first takes the
  newline when there is one and, when the rest then fails, is retried taking nothing.
\<close>

definition matchAt :: "string \<Rightarrow> nat option" where
  "matchAt s =
     (case s of
        [] \<Rightarrow> fence s
      | c # r \<Rightarrow>
          if c = NL
          then (case fence r of Some l \<Rightarrow> Some (Suc l) | None \<Rightarrow> fence s)
          else fence s)"

record regexp_match =
  index :: nat
  matched :: string

lemma length_takeWhile_dropWhile:
  "length (takeWhile P xs) + length (dropWhile P xs) = length xs"
proof -
  have "length (takeWhile P xs @ dropWhile P xs) = length xs" by simp
  then show ?thesis by (simp only: length_append)
qed

lemma tail_len_le: "tail_len r \<le> length r"
proof -
  define r2 where "r2 = dropWhile isWord r"
  define r3 where "r3 = dropWhile isSpace r2"
  define n :: nat where "n = (case r3 of c # _ \<Rightarrow> if c = NL then 1 else 0 | [] \<Rightarrow> 0)"
  have t: "tail_len r = length (takeWhile isWord r) + length (takeWhile isSpace r2) + n"
    by (simp add: tail_len_def Let_def r2_def r3_def n_def)
  have 1: "length (takeWhile isWord r) + length r2 = length r"
    unfolding r2_def by (rule length_takeWhile_dropWhile)
  have 2: "length (takeWhile isSpace r2) + length r3 = length r2"
    unfolding r3_def by (rule length_takeWhile_dropWhile)
  have 3: "n \<le> length r3" by (cases r3) (auto simp: n_def)
  from t 1 2 3 show ?thesis by arith
qed

lemma fence_pos: "fence s = Some l \<Longrightarrow> 0 < l \<and> l \<le> length s"
proof -
  assume a: "fence s = Some l"
  define r where "r = dropWhile isSpace s"
  from a have t: "take 3 r = [BT, BT, BT]"
    and l: "l = length (takeWhile isSpace s) + 3 + tail_len (drop 3 r)"
    by (auto simp: fence_def Let_def r_def split: if_splits)
  have "length (take 3 r) = 3" using t by simp
  then have 1: "3 \<le> length r" by simp
  have 2: "length (takeWhile isSpace s) + length r = length s"
    unfolding r_def by (rule length_takeWhile_dropWhile)
  have 3: "tail_len (drop 3 r) \<le> length r - 3"
    using tail_len_le [of "drop 3 r"] by simp
  from l 1 2 3 show ?thesis by arith
qed

lemma matchAt_pos: "matchAt s = Some l \<Longrightarrow> 0 < l \<and> l \<le> length s"
  by (cases s) (auto simp: matchAt_def split: if_splits option.splits dest: fence_pos)

text \<open>
  \<open>text.matchAll(codeBlockExp)\<close>: the matches from left to right, each search starting where
  the previous match ended (a match is never empty). \<open>pos\<close> is the index of the head of \<open>s\<close>
  in the whole text.
\<close>

function matchAll_from :: "nat \<Rightarrow> string \<Rightarrow> regexp_match list" where
  "matchAll_from pos s =
     (if s = [] then []
      else case matchAt s of
             Some l \<Rightarrow> \<lparr>index = pos, matched = take l s\<rparr> # matchAll_from (pos + l) (drop l s)
           | None \<Rightarrow> matchAll_from (Suc pos) (tl s))"
  by pat_completeness auto
termination
  by (relation "measure (\<lambda>(pos, s). length s)") (auto dest: matchAt_pos)

declare matchAll_from.simps [simp del]

definition matchAll :: "string \<Rightarrow> regexp_match list" where
  "matchAll text = matchAll_from 0 text"

text \<open>
  \<open>String.prototype.slice(start, end)\<close> on integer arguments: a negative argument counts from
  the end, both are clamped to the string, and an absent \<open>end\<close> is the length.
\<close>

definition slice :: "string \<Rightarrow> int \<Rightarrow> int option \<Rightarrow> string" where
  "slice s start end =
     (let len = int (length s);
          from = (if start < 0 then max (len + start) 0 else min start len);
          e = (case end of None \<Rightarrow> len | Some e \<Rightarrow> e);
          to = (if e < 0 then max (len + e) 0 else min e len)
      in take (nat (to - from)) (drop (nat from) s))"

definition extractCode :: "string \<Rightarrow> string" where
  "extractCode text =
     (let matches = matchAll text
      in if length matches = 0 then text
         else if length matches = 1
         then slice text (int (index (matches ! 0)) + int (length (matched (matches ! 0)))) None
         else let start = int (index (matches ! 0)) + int (length (matched (matches ! 0)));
                  end = int (index (matches ! 1))
              in slice text start (Some end))"

section \<open>Candidate values, decoders and schemas\<close>

text \<open>
  A candidate value is what a decoder returns: a JSON-like value. The pipeline only asks
  whether it is an array and reads the elements of one, so the representation of numbers
  plays no part.
\<close>

datatype jsval =
    JNull
  | JBool bool
  | JNum int
  | JStr string
  | JArr "jsval list"
  | JObj "(string \<times> jsval) list"

text \<open>
  \<open>PartialJSON.parse\<close> and \<open>YAML.parse\<close> are library functions: they are parameters of the
  model, of type \<open>decoder\<close>, with \<open>None\<close> for a call that throws.
\<close>

type_synonym decoder = "string \<Rightarrow> jsval option"

definition parseAny :: "decoder \<Rightarrow> decoder \<Rightarrow> string \<Rightarrow> jsval" where
  "parseAny partialJSON yaml text =
     (case partialJSON text of
        Some v \<Rightarrow> v
      | None \<Rightarrow> (case yaml text of Some v \<Rightarrow> v | None \<Rightarrow> JStr text))"

text \<open>
  A schema is an object of one of the validator library's classes. The pipeline tests for
  three of them with \<open>instanceof\<close>, reads \<open>element\<close> of an array schema and calls
  \<open>safeParse\<close>, whose outcome (\<open>result.success ? result.data : undefined\<close>) is an option.
  The validation function of each schema is a black box carried by the constructor.
\<close>

datatype schema =
    ZodString "jsval \<Rightarrow> jsval option"
  | ZodArray schema "jsval \<Rightarrow> jsval option"
  | ZodObject "jsval \<Rightarrow> jsval option"
  | ZodOther "jsval \<Rightarrow> jsval option"

fun safeParse :: "schema \<Rightarrow> jsval \<Rightarrow> jsval option" where
  "safeParse (ZodString v) x = v x"
| "safeParse (ZodArray el v) x = v x"
| "safeParse (ZodObject v) x = v x"
| "safeParse (ZodOther v) x = v x"

fun isZodString :: "schema \<Rightarrow> bool" where
  "isZodString (ZodString v) = True"
| "isZodString s = False"

fun isZodArray :: "schema \<Rightarrow> bool" where
  "isZodArray (ZodArray el v) = True"
| "isZodArray s = False"

fun isZodObject :: "schema \<Rightarrow> bool" where
  "isZodObject (ZodObject v) = True"
| "isZodObject s = False"

text \<open>\<open>z.string()\<close>, the default schema: it accepts exactly the strings, unchanged.\<close>

definition z_string :: schema where
  "z_string = ZodString (\<lambda>x. case x of JStr t \<Rightarrow> Some x | _ \<Rightarrow> None)"

section \<open>The client and its prompts\<close>

text \<open>
  The chat client is external. Of a completion the pipeline reads
  \<open>choices[0]?.message.content\<close>, of a streamed event \<open>choices[0]?.delta.content\<close>: both are
  modelled as the list of choices, each the content it carries (\<open>None\<close> when it is not a
  string). A streamed response is a finite list of events.
\<close>

type_synonym completion = "string option list"

type_synonym event = "string option list"

record 'c openai_client =
  create :: "string \<Rightarrow> 'c \<Rightarrow> completion"
  create_stream :: "string \<Rightarrow> 'c \<Rightarrow> event list"

record 'c PromptPigOptions =
  opt_openai :: "'c openai_client option"
  opt_baseURL :: "string option"
  opt_apiKey :: "string option"
  opt_model :: "string option"

record PromptOptions =
  po_model :: "string option"
  po_schema :: "schema option"

record 'c PromptPig =
  pp_openai :: "'c openai_client"
  pp_model :: "string option"

record ('a, 'c) Prompt =
  template :: "'a \<Rightarrow> 'c"
  openai :: "'c openai_client"
  model :: string
  schema :: schema

datatype error = MissingClient | MissingModel

text \<open>A string option is truthy when it is present and not empty.\<close>

definition truthy :: "string option \<Rightarrow> bool" where
  "truthy x = (case x of None \<Rightarrow> False | Some t \<Rightarrow> t \<noteq> [])"

text \<open>The constructor; \<open>new_OpenAI\<close> stands for \<open>new OpenAI({ baseURL, apiKey })\<close>.\<close>

definition new_PromptPig ::
  "(string option \<Rightarrow> string option \<Rightarrow> 'c openai_client) \<Rightarrow> 'c PromptPigOptions
     \<Rightarrow> error + 'c PromptPig" where
  "new_PromptPig new_OpenAI opts =
     (if opt_openai opts = None \<and> \<not> (truthy (opt_baseURL opts) \<and> truthy (opt_apiKey opts))
      then Inl MissingClient
      else Inr \<lparr>pp_openai = (case opt_openai opts of
                                Some c \<Rightarrow> c
                              | None \<Rightarrow> new_OpenAI (opt_baseURL opts) (opt_apiKey opts)),
                pp_model = opt_model opts\<rparr>)"

definition new_Prompt ::
  "('a \<Rightarrow> 'c) \<Rightarrow> 'c openai_client \<Rightarrow> string \<Rightarrow> schema option \<Rightarrow> ('a, 'c) Prompt" where
  "new_Prompt tmpl client mdl sch =
     \<lparr>template = tmpl, openai = client, model = mdl,
      schema = (case sch of Some s \<Rightarrow> s | None \<Rightarrow> z_string)\<rparr>"

text \<open>
  \<open>PromptPig.prompt\<close>: \<open>this.model ?? options?.model\<close> takes the client's model whenever it
  is not undefined, and \<open>!model\<close> then rejects an absent or empty one.
\<close>

definition prompt ::
  "'c PromptPig \<Rightarrow> ('a \<Rightarrow> 'c) \<Rightarrow> PromptOptions option \<Rightarrow> error + ('a, 'c) Prompt" where
  "prompt pp tmpl options =
     (let mdl = (case pp_model pp of
                   Some m \<Rightarrow> Some m
                 | None \<Rightarrow> (case options of None \<Rightarrow> None | Some opts \<Rightarrow> po_model opts))
      in case mdl of
           None \<Rightarrow> Inl MissingModel
         | Some m \<Rightarrow>
             if m = [] then Inl MissingModel
             else Inr (new_Prompt tmpl (pp_openai pp) m
                         (case options of None \<Rightarrow> None | Some opts \<Rightarrow> po_schema opts)))"

section \<open>Batch pipeline: \<open>run\<close>\<close>

definition first_content :: "string option list \<Rightarrow> string option" where
  "first_content choices = (case choices of [] \<Rightarrow> None | c # _ \<Rightarrow> c)"

definition run :: "decoder \<Rightarrow> decoder \<Rightarrow> ('a, 'c) Prompt \<Rightarrow> 'a \<Rightarrow> jsval option" where
  "run partialJSON yaml p args =
     (let content = template p args;
          completion = create (openai p) (model p) content
      in case first_content completion of
           None \<Rightarrow> None
         | Some msg \<Rightarrow>
             let schemaArray = isZodArray (schema p);
                 schemaObj = isZodObject (schema p);
                 isCode = (schemaArray \<or> schemaObj);
                 extract = (if isCode then extractCode msg else msg);
                 schemaStr = isZodString (schema p);
                 data = (if schemaStr then JStr extract else parseAny partialJSON yaml extract)
             in safeParse (schema p) data)"

section \<open>Streaming pipeline: \<open>stream\<close>\<close>

text \<open>
  The generator's output is the list of the values it yields. Every \<open>yield\<close> goes through
  \<open>tag\<close>, which receives the loop index of an element (\<open>None\<close> for a raw fragment) and the
  value: the pipeline itself is the instance \<open>plain\<close>, which keeps the value only, and the
  instance \<open>Pair\<close> records next to each value the index it was read at.
\<close>

definition plain :: "nat option \<Rightarrow> jsval \<Rightarrow> jsval" where
  "plain i v = v"

record stream_state =
  buffer :: string
  itemsDone :: nat

text \<open>
  The loop of the fragment handler,
  \<open>for (let i = itemsDone; i < data.length - 1; i++) { ...; itemsDone++ }\<close>:
  it returns what it yields and the new \<open>itemsDone\<close>.
\<close>

function accum_loop ::
  "(nat option \<Rightarrow> jsval \<Rightarrow> 'b) \<Rightarrow> schema \<Rightarrow> jsval list \<Rightarrow> nat \<Rightarrow> nat \<Rightarrow> 'b list \<times> nat" where
  "accum_loop tag el data i done =
     (if int i < int (length data) - 1
      then let ys = (case safeParse el (data ! i) of Some d \<Rightarrow> [tag (Some i) d] | None \<Rightarrow> []);
               (rest, done') = accum_loop tag el data (Suc i) (Suc done)
           in (ys @ rest, done')
      else ([], done))"
  by pat_completeness auto
termination
  by (relation "measure (\<lambda>(tag, el, data, i, done). length data - i)") auto

declare accum_loop.simps [simp del]

text \<open>The loop after the last fragment, \<open>for (let i = itemsDone; i < data.length; i++)\<close>.\<close>

function drain_loop ::
  "(nat option \<Rightarrow> jsval \<Rightarrow> 'b) \<Rightarrow> schema \<Rightarrow> jsval list \<Rightarrow> nat \<Rightarrow> 'b list" where
  "drain_loop tag el data i =
     (if i < length data
      then (case safeParse el (data ! i) of Some d \<Rightarrow> [tag (Some i) d] | None \<Rightarrow> [])
           @ drain_loop tag el data (Suc i)
      else [])"
  by pat_completeness auto
termination
  by (relation "measure (\<lambda>(tag, el, data, i). length data - i)") auto

declare drain_loop.simps [simp del]

text \<open>The body of \<open>for await (const event of stream)\<close>: what one event yields, and the state after it.\<close>

definition step ::
  "(nat option \<Rightarrow> jsval \<Rightarrow> 'b) \<Rightarrow> decoder \<Rightarrow> decoder \<Rightarrow> schema \<Rightarrow> stream_state \<Rightarrow> event
     \<Rightarrow> 'b list \<times> stream_state" where
  "step tag partialJSON yaml sch st ev =
     (case first_content ev of
        None \<Rightarrow> ([], st)
      | Some m \<Rightarrow>
          if m = [] then ([], st)
          else (case sch of
                  ZodArray el v \<Rightarrow>
                    let buffer' = buffer st @ m;
                        extract = extractCode buffer';
                        data = parseAny partialJSON yaml extract
                    in (case data of
                          JArr xs \<Rightarrow>
                            let (ys, done') = accum_loop tag el xs (itemsDone st) (itemsDone st)
                            in (ys, \<lparr>buffer = buffer', itemsDone = done'\<rparr>)
                        | _ \<Rightarrow> ([], st\<lparr>buffer := buffer'\<rparr>))
                | _ \<Rightarrow> ([tag None (JStr m)], st)))"

fun stream_loop ::
  "(nat option \<Rightarrow> jsval \<Rightarrow> 'b) \<Rightarrow> decoder \<Rightarrow> decoder \<Rightarrow> schema \<Rightarrow> stream_state \<Rightarrow> event list
     \<Rightarrow> 'b list \<times> stream_state" where
  "stream_loop tag partialJSON yaml sch st [] = ([], st)"
| "stream_loop tag partialJSON yaml sch st (ev # evs) =
     (let (ys, st') = step tag partialJSON yaml sch st ev;
          (rest, st'') = stream_loop tag partialJSON yaml sch st' evs
      in (ys @ rest, st''))"

text \<open>The code after the loop, run when the events are exhausted.\<close>

definition drain ::
  "(nat option \<Rightarrow> jsval \<Rightarrow> 'b) \<Rightarrow> decoder \<Rightarrow> decoder \<Rightarrow> schema \<Rightarrow> stream_state \<Rightarrow> 'b list" where
  "drain tag partialJSON yaml sch st =
     (case sch of
        ZodArray el v \<Rightarrow>
          (case parseAny partialJSON yaml (extractCode (buffer st)) of
             JArr xs \<Rightarrow> drain_loop tag el xs (itemsDone st)
           | _ \<Rightarrow> [])
      | _ \<Rightarrow> [])"

definition init_state :: stream_state where
  "init_state = \<lparr>buffer = [], itemsDone = 0\<rparr>"

definition stream_events ::
  "(nat option \<Rightarrow> jsval \<Rightarrow> 'b) \<Rightarrow> decoder \<Rightarrow> decoder \<Rightarrow> schema \<Rightarrow> event list \<Rightarrow> 'b list" where
  "stream_events tag partialJSON yaml sch evs =
     (let (ys, st) = stream_loop tag partialJSON yaml sch init_state evs
      in ys @ drain tag partialJSON yaml sch st)"

definition stream_tagged ::
  "(nat option \<Rightarrow> jsval \<Rightarrow> 'b) \<Rightarrow> decoder \<Rightarrow> decoder \<Rightarrow> ('a, 'c) Prompt \<Rightarrow> 'a \<Rightarrow> 'b list" where
  "stream_tagged tag partialJSON yaml p args =
     (let content = template p args;
          events = create_stream (openai p) (model p) content
      in stream_events tag partialJSON yaml (schema p) events)"

definition stream :: "decoder \<Rightarrow> decoder \<Rightarrow> ('a, 'c) Prompt \<Rightarrow> 'a \<Rightarrow> jsval list" where
  "stream = stream_tagged plain"

section \<open>Vocabulary of the statements\<close>

text \<open>The non-empty text fragments of a streamed response, in arrival order.\<close>

definition fragments :: "event list \<Rightarrow> string list" where
  "fragments evs = filter (\<lambda>m. m \<noteq> []) (List.map_filter first_content evs)"

text \<open>The events a call of \<open>stream\<close> receives, and the message a call of \<open>run\<close> receives.\<close>

definition events_of :: "('a, 'c) Prompt \<Rightarrow> 'a \<Rightarrow> event list" where
  "events_of p args = create_stream (openai p) (model p) (template p args)"

definition message_of :: "('a, 'c) Prompt \<Rightarrow> 'a \<Rightarrow> string option" where
  "message_of p args = first_content (create (openai p) (model p) (template p args))"

text \<open>
  The elements of \<open>xs\<close> at the indices from \<open>lo\<close> up to but excluding \<open>hi\<close> that pass the
  element schema, each validated and tagged with its index, in ascending index order.
\<close>

definition validated ::
  "(nat option \<Rightarrow> jsval \<Rightarrow> 'b) \<Rightarrow> schema \<Rightarrow> jsval list \<Rightarrow> nat \<Rightarrow> nat \<Rightarrow> 'b list" where
  "validated tag el xs lo hi =
     List.map_filter (\<lambda>j. map_option (tag (Some j)) (safeParse el (xs ! j))) [lo..<hi]"

text \<open>
  \<open>prefix_stable ys b ms\<close>: as the fragments \<open>ms\<close> are appended to the buffer \<open>b\<close> one by one,
  every candidate value that is an array agrees with \<open>ys\<close> on all its elements but the last.
\<close>

fun prefix_stable :: "decoder \<Rightarrow> decoder \<Rightarrow> jsval list \<Rightarrow> string \<Rightarrow> string list \<Rightarrow> bool" where
  "prefix_stable partialJSON yaml ys b [] = True"
| "prefix_stable partialJSON yaml ys b (m # ms) =
     ((case parseAny partialJSON yaml (extractCode (b @ m)) of
         JArr xs \<Rightarrow> length xs - 1 \<le> length ys \<and> take (length xs - 1) xs = take (length xs - 1) ys
       | _ \<Rightarrow> True)
      \<and> prefix_stable partialJSON yaml ys (b @ m) ms)"

text \<open>
  The streaming of a sequence as the specification words it, over the non-empty fragments
  \<open>ms\<close> still to come, the buffer \<open>b\<close> accumulated so far and the emission cursor \<open>c\<close>: each
  fragment is appended to the buffer and the candidate value is parsed from the whole
  buffer; when it is an array, the elements from the cursor up to but excluding the last are
  validated, the valid ones yielded, and the cursor advances once per index; when the
  fragments are exhausted, the candidate value of the complete buffer, when an array, has
  its elements from the cursor to the end validated and the valid ones yielded.
\<close>

fun spec_sequence ::
  "(nat option \<Rightarrow> jsval \<Rightarrow> 'b) \<Rightarrow> decoder \<Rightarrow> decoder \<Rightarrow> schema \<Rightarrow> string \<Rightarrow> nat \<Rightarrow> string list
     \<Rightarrow> 'b list" where
  "spec_sequence tag partialJSON yaml el b c [] =
     (case parseAny partialJSON yaml (extractCode b) of
        JArr xs \<Rightarrow> validated tag el xs c (length xs)
      | _ \<Rightarrow> [])"
| "spec_sequence tag partialJSON yaml el b c (m # ms) =
     (case parseAny partialJSON yaml (extractCode (b @ m)) of
        JArr xs \<Rightarrow>
          validated tag el xs c (length xs - 1)
          @ spec_sequence tag partialJSON yaml el (b @ m) (c + length [c..<length xs - 1]) ms
      | _ \<Rightarrow> spec_sequence tag partialJSON yaml el (b @ m) c ms)"

text \<open>\<open>no_fence s\<close>: three consecutive backticks start nowhere in \<open>s\<close>.\<close>

fun no_fence :: "string \<Rightarrow> bool" where
  "no_fence [] = True"
| "no_fence (c # s) = (take 3 (c # s) \<noteq> [BT, BT, BT] \<and> no_fence s)"

text \<open>
  The shape of a delimiter: an optional newline, spaces, exactly three backticks, a tag of
  word characters, spaces, an optional newline.
\<close>

definition delimiter_shape :: "string \<Rightarrow> bool" where
  "delimiter_shape d \<longleftrightarrow>
     (\<exists>nl sp tag sp2 nl2.
        d = nl @ sp @ [BT, BT, BT] @ tag @ sp2 @ nl2
        \<and> (nl = [] \<or> nl = [NL]) \<and> (\<forall>c\<in>set sp. isSpace c) \<and> (\<forall>c\<in>set tag. isWord c)
        \<and> (\<forall>c\<in>set sp2. isSpace c) \<and> (nl2 = [] \<or> nl2 = [NL]))"

text \<open>Fixtures for the concrete runs below.\<close>

definition no_decoder :: decoder where
  "no_decoder t = None"

definition accept_all :: "jsval \<Rightarrow> jsval option" where
  "accept_all x = Some x"

definition fixed_client :: "completion \<Rightarrow> event list \<Rightarrow> string openai_client" where
  "fixed_client c evs = \<lparr>create = (\<lambda>m t. c), create_stream = (\<lambda>m t. evs)\<rparr>"

definition fixed_prompt :: "schema \<Rightarrow> completion \<Rightarrow> event list \<Rightarrow> (unit, string) Prompt" where
  "fixed_prompt sch c evs =
     \<lparr>template = (\<lambda>u. ''ask''), openai = fixed_client c evs, model = ''m'', schema = sch\<rparr>"

text \<open>\<open>z.number()\<close> and the validation of \<open>z.array(z.number())\<close>.\<close>

definition z_number :: schema where
  "z_number = ZodOther (\<lambda>x. case x of JNum n \<Rightarrow> Some x | _ \<Rightarrow> None)"

definition all_numbers :: "jsval \<Rightarrow> jsval option" where
  "all_numbers x =
     (case x of
        JArr xs \<Rightarrow> if list_all (\<lambda>y. safeParse z_number y \<noteq> None) xs then Some x else None
      | _ \<Rightarrow> None)"

text \<open>
  A stand-in for \<open>PartialJSON.parse\<close>: on four texts (three complete arrays and an array
  cut after a comma) it returns what the library returns, and it fails on every other
  text. The runs below that refute a statement pass it no text outside these four.
\<close>

definition demo_decoder :: decoder where
  "demo_decoder t =
     (if t = ''[1,2,3]'' then Some (JArr [JNum 1, JNum 2, JNum 3])
      else if t = ''[1,'' then Some (JArr [JNum 1])
      else if t = ''[4]'' then Some (JArr [JNum 4])
      else if t = ''[null,2,3]'' then Some (JArr [JNull, JNum 2, JNum 3])
      else None)"

text \<open>
  The response \<open>Here you go:\<close>, a fenced block tagged \<open>json\<close> holding \<open>[1,2,3]\<close>, as one text
  and as three fragments.
\<close>

definition example_text :: string where
  "example_text = ''Here you go:'' @ [NL] @ ''```json'' @ [NL] @ ''[1,2,3]'' @ [NL] @ ''```''"

definition example_events :: "event list" where
  "example_events =
     [[Some ''Here''],
      [Some ('' you go:'' @ [NL] @ ''```json'' @ [NL] @ ''[1,'')],
      [Some (''2,3]'' @ [NL] @ ''```'')]]"

section \<open>Auxiliary facts about the block extractor\<close>

lemma slice_from: "a \<le> length s \<Longrightarrow> slice s (int a) None = drop a s"
  by (simp add: slice_def Let_def)

lemma slice_between:
  "a \<le> b \<Longrightarrow> b \<le> length s \<Longrightarrow> slice s (int a) (Some (int b)) = take (b - a) (drop a s)"
  by (simp add: slice_def Let_def nat_diff_distrib')

lemma drop_split: "a \<le> b \<Longrightarrow> drop a s = take (b - a) (drop a s) @ drop b s"
proof -
  assume "a \<le> b"
  then have "drop b s = drop (b - a) (drop a s)" by simp
  then show ?thesis by (simp only: append_take_drop_id)
qed

lemma matchAll_from_Cons:
  "matchAll_from pos s = m # ms \<Longrightarrow>
   pos \<le> index m \<and> 0 < length (matched m) \<and> index m + length (matched m) \<le> pos + length s
   \<and> matched m = take (length (matched m)) (drop (index m - pos) s)
   \<and> matchAt (drop (index m - pos) s) = Some (length (matched m))
   \<and> (\<forall>k < index m - pos. matchAt (drop k s) = None)
   \<and> ms = matchAll_from (index m + length (matched m))
            (drop (index m - pos + length (matched m)) s)"
proof (induction pos s rule: matchAll_from.induct)
  case (1 pos s)
  from "1.prems" have ne: "s \<noteq> []" by (subst (asm) matchAll_from.simps) (auto split: if_splits)
  show ?case
  proof (cases "matchAt s")
    case (Some l)
    from matchAt_pos [OF Some] have l: "0 < l" "l \<le> length s" by simp_all
    from "1.prems" ne Some have m: "m = \<lparr>index = pos, matched = take l s\<rparr>"
      and ms: "ms = matchAll_from (pos + l) (drop l s)"
      by (subst (asm) matchAll_from.simps, simp)+
    show ?thesis using l Some by (simp add: m ms min_absorb2)
  next
    case None
    from "1.prems" ne None have r: "matchAll_from (Suc pos) (tl s) = m # ms"
      by (subst (asm) matchAll_from.simps) simp
    note ih = "1.IH"(1) [OF ne None r]
    from ih have p: "Suc pos \<le> index m" by simp
    then have d: "index m - pos = Suc (index m - Suc pos)" by simp
    have dr: "drop (Suc k) s = drop k (tl s)" for k by (simp add: drop_Suc)
    have none: "matchAt (drop k s) = None" if "k < index m - pos" for k
    proof (cases k)
      case 0
      then show ?thesis using None by simp
    next
      case (Suc k')
      with that d have "k' < index m - Suc pos" by simp
      with ih have "matchAt (drop k' (tl s)) = None" by simp
      then show ?thesis by (simp add: Suc dr)
    qed
    have len: "length (tl s) = length s - 1" by simp
    from ih ne have b: "index m + length (matched m) \<le> pos + length s"
      by (cases s) auto
    show ?thesis
      using ih p b none by (simp add: d dr)
  qed
qed

lemma fence_Cons:
  "fence (a # s) =
     (if isSpace a then map_option Suc (fence s)
      else if a = BT \<and> take 2 s = [BT, BT] then Some (3 + tail_len (drop 2 s))
      else None)"
  by (auto simp: fence_def Let_def take_Suc_Cons numeral_3_eq_3 numeral_2_eq_2 split: list.splits)

lemma fence_Nil: "fence [] = None"
  by (simp add: fence_def)

lemma not_space_BT: "\<not> isSpace BT" and not_space_NL: "\<not> isSpace NL"
  and not_word_NL: "\<not> isWord NL" and not_word_space: "isSpace c \<Longrightarrow> \<not> isWord c"
  by (simp_all add: isSpace_def isWord_def)

lemma fence_BT: "fence ([BT, BT, BT] @ w) = Some (3 + tail_len w)"
  by (simp add: fence_Cons not_space_BT)

lemma matchAt_BT: "matchAt ([BT, BT, BT] @ w) = Some (3 + tail_len w)"
  using fence_BT [of w] by (simp add: matchAt_def)

lemma fence_contains: "fence s = Some l \<Longrightarrow> \<exists>u w. s = u @ [BT, BT, BT] @ w"
proof -
  assume "fence s = Some l"
  then have t: "take 3 (dropWhile isSpace s) = [BT, BT, BT]"
    by (simp add: fence_def Let_def split: if_splits)
  have "s = takeWhile isSpace s @ take 3 (dropWhile isSpace s) @ drop 3 (dropWhile isSpace s)"
    by simp
  then have "s = takeWhile isSpace s @ [BT, BT, BT] @ drop 3 (dropWhile isSpace s)"
    by (simp only: t)
  then show ?thesis by blast
qed

lemma matchAt_contains: "matchAt s = Some l \<Longrightarrow> \<exists>u w. s = u @ [BT, BT, BT] @ w"
proof (cases s)
  case Nil
  assume "matchAt s = Some l"
  with Nil show ?thesis by (simp add: matchAt_def fence_Nil)
next
  case (Cons c r)
  assume a: "matchAt s = Some l"
  then consider l' where "fence r = Some l'" | "fence s = Some l"
    using Cons by (auto simp: matchAt_def split: if_splits option.splits)
  then show ?thesis
  proof cases
    case 1
    from fence_contains [OF 1] obtain u w where "r = u @ [BT, BT, BT] @ w" by blast
    then have "s = (c # u) @ [BT, BT, BT] @ w" using Cons by simp
    then show ?thesis by blast
  next
    case 2
    then show ?thesis by (rule fence_contains)
  qed
qed

lemma matchAll_from_Nil_iff:
  "matchAll_from pos s = [] \<longleftrightarrow> (\<forall>k<length s. matchAt (drop k s) = None)"
proof (induction pos s rule: matchAll_from.induct)
  case (1 pos s)
  show ?case
  proof (cases "s = []")
    case True
    then show ?thesis by (subst matchAll_from.simps) simp
  next
    case ne: False
    show ?thesis
    proof (cases "matchAt s")
      case (Some l)
      have "matchAll_from pos s \<noteq> []"
        using ne Some by (subst matchAll_from.simps) simp
      moreover have "\<not> (\<forall>k<length s. matchAt (drop k s) = None)"
        using ne Some by (auto intro: exI [of _ 0])
      ultimately show ?thesis by simp
    next
      case None
      have e: "matchAll_from pos s = matchAll_from (Suc pos) (tl s)"
        using ne None by (subst matchAll_from.simps) simp
      have "(\<forall>k<length s. matchAt (drop k s) = None)
              \<longleftrightarrow> (\<forall>k<length (tl s). matchAt (drop k (tl s)) = None)"
      proof
        assume a: "\<forall>k<length s. matchAt (drop k s) = None"
        show "\<forall>k<length (tl s). matchAt (drop k (tl s)) = None"
        proof (intro allI impI)
          fix k assume "k < length (tl s)"
          then have "Suc k < length s" by simp
          with a have "matchAt (drop (Suc k) s) = None" by blast
          then show "matchAt (drop k (tl s)) = None" by (simp add: drop_Suc)
        qed
      next
        assume a: "\<forall>k<length (tl s). matchAt (drop k (tl s)) = None"
        show "\<forall>k<length s. matchAt (drop k s) = None"
        proof (intro allI impI)
          fix k assume k: "k < length s"
          show "matchAt (drop k s) = None"
          proof (cases k)
            case 0
            then show ?thesis using None by simp
          next
            case (Suc k')
            with k have "k' < length (tl s)" by simp
            with a have "matchAt (drop k' (tl s)) = None" by blast
            then show ?thesis by (simp add: Suc drop_Suc)
          qed
        qed
      qed
      with "1.IH"(1) [OF ne None] e show ?thesis by simp
    qed
  qed
qed

lemma matchAll_Nil_iff:
  "matchAll text = [] \<longleftrightarrow> \<not> (\<exists>u w. text = u @ [BT, BT, BT] @ w)"
proof
  assume a: "matchAll text = []"
  show "\<not> (\<exists>u w. text = u @ [BT, BT, BT] @ w)"
  proof
    assume "\<exists>u w. text = u @ [BT, BT, BT] @ w"
    then obtain u w where t: "text = u @ [BT, BT, BT] @ w" by blast
    then have "length u < length text" by simp
    with a have "matchAt (drop (length u) text) = None"
      by (simp add: matchAll_def matchAll_from_Nil_iff)
    then show False using matchAt_BT [of w] by (simp add: t)
  qed
next
  assume a: "\<not> (\<exists>u w. text = u @ [BT, BT, BT] @ w)"
  have "matchAt (drop k text) = None" for k
  proof (cases "matchAt (drop k text)")
    case (Some l)
    from matchAt_contains [OF Some] obtain u w where "drop k text = u @ [BT, BT, BT] @ w"
      by blast
    then have "take k text @ drop k text = (take k text @ u) @ [BT, BT, BT] @ w" by simp
    then have "text = (take k text @ u) @ [BT, BT, BT] @ w" by (simp only: append_take_drop_id)
    with a show ?thesis by blast
  qed simp
  then show "matchAll text = []" by (simp add: matchAll_def matchAll_from_Nil_iff)
qed

lemma fence_spaces:
  "\<forall>c\<in>set sp. isSpace c \<Longrightarrow> fence (sp @ [BT, BT, BT] @ w) = Some (length sp + 3 + tail_len w)"
  by (induction sp) (simp_all add: fence_Cons not_space_BT)

lemma matchAt_Cons:
  "matchAt (a # r) =
     (if a = NL then (case fence r of Some l \<Rightarrow> Some (Suc l) | None \<Rightarrow> fence (a # r))
      else fence (a # r))"
  by (simp add: matchAt_def)

lemma tail_len_tag:
  assumes "\<forall>c\<in>set tag. isWord c" and "\<forall>c\<in>set sp. isSpace c"
  shows "tail_len (tag @ sp @ NL # w) = length tag + length sp + 1"
proof -
  have nw: "takeWhile isWord (sp @ NL # w) = []"
    using assms(2) by (cases sp) (auto simp: not_word_NL not_word_space)
  have 1: "takeWhile isWord (tag @ sp @ NL # w) = tag"
    using assms(1) nw by (simp add: takeWhile_append2)
  have dw: "dropWhile isWord (sp @ NL # w) = sp @ NL # w"
    using assms(2) by (cases sp) (auto simp: not_word_NL not_word_space)
  have 2: "dropWhile isWord (tag @ sp @ NL # w) = sp @ NL # w"
    using assms(1) dw by (simp add: dropWhile_append2)
  have 3: "takeWhile isSpace (sp @ NL # w) = sp"
    using assms(2) by (simp add: takeWhile_append2 not_space_NL)
  have 4: "dropWhile isSpace (sp @ NL # w) = NL # w"
    using assms(2) by (simp add: dropWhile_append2 not_space_NL)
  show ?thesis by (simp add: tail_len_def Let_def 1 2 3 4)
qed

lemma drop_append_len: "drop (length u + n) (u @ w) = drop n w"
  by simp

lemma not_word_BT: "\<not> isWord BT"
  by (simp add: isWord_def)

lemma take2_BT_sep: "take 2 (u @ c # w) = [BT, BT] \<Longrightarrow> c \<noteq> BT \<Longrightarrow> \<exists>t. u = BT # BT # t"
  by (cases u; cases "tl u") auto

lemma take2_BT_app: "take 2 (u @ BT # BT # x) = [BT, BT] \<Longrightarrow> take 2 (u @ [BT, BT]) = [BT, BT]"
  by (cases u; cases "tl u") auto

lemma fence_no_fence:
  "no_fence u \<Longrightarrow> c \<noteq> BT \<Longrightarrow> \<not> isSpace c \<Longrightarrow> fence (u @ c # w) = None"
proof (induction u)
  case Nil
  then show ?case by (simp add: fence_Cons)
next
  case (Cons a u)
  show ?case
  proof (cases "isSpace a")
    case True
    with Cons show ?thesis by (simp add: fence_Cons)
  next
    case False
    have "\<not> (a = BT \<and> take 2 (u @ c # w) = [BT, BT])"
    proof
      assume h: "a = BT \<and> take 2 (u @ c # w) = [BT, BT]"
      with take2_BT_sep [of u c w] Cons.prems(2) obtain t where "u = BT # BT # t" by blast
      with h Cons.prems(1) show False by simp
    qed
    with False show ?thesis by (auto simp: fence_Cons)
  qed
qed

lemma matchAt_no_fence:
  assumes "no_fence u" and "u \<noteq> []" and "c \<noteq> BT" and "\<not> isSpace c"
  shows "matchAt (u @ c # w) = None"
proof -
  from assms(2) obtain a u' where u: "u = a # u'" by (cases u) auto
  have 1: "fence (u @ c # w) = None" using assms by (intro fence_no_fence)
  have 2: "fence (u' @ c # w) = None" using assms u by (intro fence_no_fence) auto
  show ?thesis using 1 2 by (auto simp: matchAt_def u)
qed

lemma fence_prefix_len:
  "no_fence (u @ [BT, BT]) \<Longrightarrow> fence (u @ [BT, BT, BT] @ w) = Some l
   \<Longrightarrow> l = length u + 3 + tail_len w"
proof (induction u arbitrary: l)
  case Nil
  then show ?case using fence_BT [of w] by simp
next
  case (Cons a u)
  show ?case
  proof (cases "isSpace a")
    case True
    with Cons.prems(2) obtain l' where l': "fence (u @ [BT, BT, BT] @ w) = Some l'" "l = Suc l'"
      by (auto simp: fence_Cons)
    from Cons.prems(1) have "no_fence (u @ [BT, BT])" by simp
    from Cons.IH [OF this l'(1)] l'(2) show ?thesis by simp
  next
    case False
    with Cons.prems(2) have h: "a = BT" "take 2 (u @ [BT, BT, BT] @ w) = [BT, BT]"
      by (auto simp: fence_Cons split: if_splits)
    from h(2) have "take 2 (u @ BT # BT # (BT # w)) = [BT, BT]" by simp
    then have "take 2 (u @ [BT, BT]) = [BT, BT]" by (rule take2_BT_app)
    with h(1) Cons.prems(1) show ?thesis by simp
  qed
qed

lemma matchAt_prefix_len:
  assumes "no_fence (u @ [BT, BT])" and "matchAt (u @ [BT, BT, BT] @ w) = Some l"
  shows "l = length u + 3 + tail_len w"
proof (cases u)
  case Nil
  with assms(2) show ?thesis using matchAt_BT [of w] by simp
next
  case (Cons a u')
  from assms(1) Cons have nb: "no_fence (u' @ [BT, BT])" by simp
  let ?r = "u' @ [BT, BT, BT] @ w"
  from assms(2) Cons have m: "matchAt (a # ?r) = Some l" by simp
  from assms(1) Cons have f: "fence (a # ?r) = Some k \<Longrightarrow> k = length u + 3 + tail_len w" for k
    using fence_prefix_len [of u w k] by simp
  show ?thesis
  proof (cases "a = NL")
    case True
    show ?thesis
    proof (cases "fence ?r")
      case None
      with m True have "fence (a # ?r) = Some l" by (simp add: matchAt_Cons)
      then show ?thesis by (rule f)
    next
      case (Some l')
      with m True have "l = Suc l'" by (simp add: matchAt_Cons)
      moreover from fence_prefix_len [OF nb Some] have "l' = length u' + 3 + tail_len w" .
      ultimately show ?thesis using Cons by simp
    qed
  next
    case False
    with m have "fence (a # ?r) = Some l" by (simp add: matchAt_Cons)
    then show ?thesis by (rule f)
  qed
qed

lemma first_match_end:
  "no_fence (pre @ [BT, BT]) \<Longrightarrow>
   \<exists>m e. matchAll_from pos (pre @ [BT, BT, BT] @ w) = m # matchAll_from e (drop (tail_len w) w)
      \<and> e = pos + length pre + 3 + tail_len w
      \<and> index m + length (matched m) = e"
proof (induction pre arbitrary: pos)
  case Nil
  let ?s = "[BT, BT, BT] @ w"
  let ?l = "3 + tail_len w"
  have le: "tail_len w \<le> length w" by (rule tail_len_le)
  have m: "matchAt ?s = Some ?l" by (rule matchAt_BT)
  have d: "drop ?l ?s = drop (tail_len w) w"
  proof -
    have "?l = length [BT, BT, BT] + tail_len w" by simp
    then show ?thesis by (simp only: drop_append_len)
  qed
  have t: "length (take ?l ?s) = ?l" using le by simp
  have "matchAll_from pos ?s
          = \<lparr>index = pos, matched = take ?l ?s\<rparr> # matchAll_from (pos + ?l) (drop ?l ?s)"
    using m by (subst matchAll_from.simps) simp
  then have "matchAll_from pos ([] @ ?s)
          = \<lparr>index = pos, matched = take ?l ?s\<rparr> # matchAll_from (pos + ?l) (drop (tail_len w) w)"
    unfolding d by simp
  moreover have "pos + ?l = pos + length ([] :: string) + 3 + tail_len w" by simp
  moreover have "index \<lparr>index = pos, matched = take ?l ?s\<rparr>
                   + length (matched \<lparr>index = pos, matched = take ?l ?s\<rparr>) = pos + ?l"
    using t by simp
  ultimately show ?case by blast
next
  case (Cons a pre)
  let ?s = "(a # pre) @ [BT, BT, BT] @ w"
  show ?case
  proof (cases "matchAt ?s")
    case None
    then have e: "matchAll_from pos ?s = matchAll_from (Suc pos) (pre @ [BT, BT, BT] @ w)"
      by (subst matchAll_from.simps) simp
    from Cons.prems have "no_fence (pre @ [BT, BT])" by simp
    from Cons.IH [OF this, of "Suc pos"] obtain m e where
      "matchAll_from (Suc pos) (pre @ [BT, BT, BT] @ w) = m # matchAll_from e (drop (tail_len w) w)"
      "e = Suc pos + length pre + 3 + tail_len w" "index m + length (matched m) = e"
      by auto
    then have "matchAll_from pos ?s = m # matchAll_from e (drop (tail_len w) w)
        \<and> e = pos + length (a # pre) + 3 + tail_len w \<and> index m + length (matched m) = e"
      using e by simp
    then show ?thesis by blast
  next
    case (Some l)
    from matchAt_prefix_len [OF Cons.prems Some]
    have l: "l = length (a # pre) + 3 + tail_len w" .
    have le: "tail_len w \<le> length w" by (rule tail_len_le)
    have d: "drop l ?s = drop (tail_len w) w"
    proof -
      have "?s = ((a # pre) @ [BT, BT, BT]) @ w" by simp
      moreover have "l = length ((a # pre) @ [BT, BT, BT]) + tail_len w" using l by simp
      ultimately show ?thesis by (simp only: drop_append_len)
    qed
    have t: "length (take l ?s) = l" using le by (simp add: l)
    have "matchAll_from pos ?s
            = \<lparr>index = pos, matched = take l ?s\<rparr> # matchAll_from (pos + l) (drop l ?s)"
      using Some by (subst matchAll_from.simps) simp
    then have "matchAll_from pos ?s
            = \<lparr>index = pos, matched = take l ?s\<rparr>
                # matchAll_from (pos + l) (drop (tail_len w) w)"
      unfolding d .
    moreover have "pos + l = pos + length (a # pre) + 3 + tail_len w" using l by simp
    moreover have "index \<lparr>index = pos, matched = take l ?s\<rparr>
                     + length (matched \<lparr>index = pos, matched = take l ?s\<rparr>) = pos + l"
      using t by simp
    ultimately show ?thesis by blast
  qed
qed

lemma second_match_start:
  "no_fence body \<Longrightarrow> \<forall>c\<in>set sp. isSpace c \<Longrightarrow>
   \<exists>m ms. matchAll_from pos (body @ NL # sp @ [BT, BT, BT] @ w) = m # ms
        \<and> index m = pos + length body"
proof (induction body arbitrary: pos)
  case Nil
  have "fence (sp @ [BT, BT, BT] @ w) = Some (length sp + 3 + tail_len w)"
    using Nil.prems(2) by (rule fence_spaces)
  then have "matchAt (NL # sp @ [BT, BT, BT] @ w) = Some (Suc (length sp + 3 + tail_len w))"
    by (simp add: matchAt_def)
  then show ?case by (subst matchAll_from.simps) simp
next
  case (Cons a body)
  have "matchAt ((a # body) @ NL # sp @ [BT, BT, BT] @ w) = None"
    using Cons.prems(1) by (intro matchAt_no_fence) (simp_all add: not_space_NL)
  then have "matchAll_from pos ((a # body) @ NL # sp @ [BT, BT, BT] @ w)
               = matchAll_from (Suc pos) (body @ NL # sp @ [BT, BT, BT] @ w)"
    by (subst matchAll_from.simps) simp
  with Cons.IH [of "Suc pos"] Cons.prems show ?case by simp
qed

lemma extractCode_block:
  assumes "no_fence (pre @ [BT, BT])" and "\<forall>c\<in>set tag. isWord c" and "\<forall>c\<in>set sp1. isSpace c"
    and "no_fence body" and "\<forall>c\<in>set sp2. isSpace c"
  shows "extractCode (pre @ [BT, BT, BT] @ tag @ sp1 @ [NL] @ body @ [NL] @ sp2 @ [BT, BT, BT] @ post)
           = body"
proof -
  define closing where "closing = body @ NL # sp2 @ [BT, BT, BT] @ post"
  define w where "w = tag @ sp1 @ NL # closing"
  define whole where "whole = pre @ [BT, BT, BT] @ w"
  have tl: "tail_len w = length tag + length sp1 + 1"
    unfolding w_def using assms(2,3) by (rule tail_len_tag)
  have dw: "drop (tail_len w) w = closing"
  proof -
    have "w = (tag @ sp1 @ [NL]) @ closing" by (simp add: w_def)
    moreover have "tail_len w = length (tag @ sp1 @ [NL]) + 0" using tl by simp
    ultimately show ?thesis by (simp only: drop_append_len drop_0)
  qed
  from first_match_end [OF assms(1), of 0 w] obtain m1 e where
    a1: "matchAll_from 0 whole = m1 # matchAll_from e closing"
    and e: "e = length pre + 3 + tail_len w"
    and i1: "index m1 + length (matched m1) = e"
    unfolding whole_def dw by auto
  from second_match_start [OF assms(4,5), of e post] obtain m2 ms where
    a2: "matchAll_from e closing = m2 # ms" and i2: "index m2 = e + length body"
    unfolding closing_def by blast
  have ma: "matchAll whole = m1 # m2 # ms" using a1 a2 by (simp add: matchAll_def)
  have tx: "whole = (pre @ [BT, BT, BT] @ tag @ sp1 @ [NL]) @ body @ (NL # sp2 @ [BT, BT, BT] @ post)"
    by (simp add: whole_def w_def closing_def)
  have el: "e = length (pre @ [BT, BT, BT] @ tag @ sp1 @ [NL]) + 0" using e tl by simp
  have dr: "drop e whole = body @ (NL # sp2 @ [BT, BT, BT] @ post)"
    unfolding tx el by (simp only: drop_append_len drop_0)
  have le: "e + length body \<le> length whole"
    unfolding tx el by simp
  have "extractCode whole = slice whole (int e) (Some (int (e + length body)))"
    using ma i1 i2 by (simp add: extractCode_def flip: of_nat_add)
  also have "\<dots> = take (e + length body - e) (drop e whole)"
    using le by (intro slice_between) simp_all
  also have "\<dots> = body" by (simp add: dr)
  finally show ?thesis by (simp add: whole_def w_def closing_def)
qed

lemma take_append_len: "take (length u + n) (u @ w) = u @ take n w"
  by simp

lemma tail_len_shape:
  "\<exists>tag sp2 nl2. take (tail_len r) r = tag @ sp2 @ nl2
     \<and> (\<forall>c\<in>set tag. isWord c) \<and> (\<forall>c\<in>set sp2. isSpace c) \<and> (nl2 = [] \<or> nl2 = [NL])"
proof -
  define tag where "tag = takeWhile isWord r"
  define r2 where "r2 = dropWhile isWord r"
  define sp2 where "sp2 = takeWhile isSpace r2"
  define r3 where "r3 = dropWhile isSpace r2"
  define n :: nat where "n = (case r3 of c # _ \<Rightarrow> if c = NL then 1 else 0 | [] \<Rightarrow> 0)"
  have t: "tail_len r = length tag + length sp2 + n"
    by (simp add: tail_len_def Let_def tag_def r2_def sp2_def r3_def n_def)
  have r: "r = (tag @ sp2) @ r3"
    by (simp add: tag_def r2_def sp2_def r3_def)
  have "take (length (tag @ sp2) + n) ((tag @ sp2) @ r3) = (tag @ sp2) @ take n r3"
    by (rule take_append_len)
  moreover have "tail_len r = length (tag @ sp2) + n" using t by simp
  ultimately have "take (tail_len r) ((tag @ sp2) @ r3) = (tag @ sp2) @ take n r3"
    by (simp only:)
  then have "take (tail_len r) r = (tag @ sp2) @ take n r3"
    using r by (simp only:)
  then have tk: "take (tail_len r) r = tag @ sp2 @ take n r3"
    by (simp only: append_assoc)
  have n3: "take n r3 = [] \<or> take n r3 = [NL]"
    by (cases r3) (auto simp: n_def)
  have "\<forall>c\<in>set tag. isWord c" unfolding tag_def by (auto dest: set_takeWhileD)
  moreover have "\<forall>c\<in>set sp2. isSpace c" unfolding sp2_def by (auto dest: set_takeWhileD)
  ultimately show ?thesis using tk n3 by blast
qed

lemma fence_shape:
  assumes "fence s = Some l"
  shows "\<exists>sp tag sp2 nl2. take l s = sp @ [BT, BT, BT] @ tag @ sp2 @ nl2
     \<and> (\<forall>c\<in>set sp. isSpace c) \<and> (\<forall>c\<in>set tag. isWord c) \<and> (\<forall>c\<in>set sp2. isSpace c)
     \<and> (nl2 = [] \<or> nl2 = [NL])"
proof -
  define sp where "sp = takeWhile isSpace s"
  define r where "r = dropWhile isSpace s"
  define r1 where "r1 = drop 3 r"
  from assms have t: "take 3 r = [BT, BT, BT]" and l: "l = length sp + 3 + tail_len r1"
    by (auto simp: fence_def Let_def r_def sp_def r1_def split: if_splits)
  have "r = take 3 r @ drop 3 r" by simp
  then have r: "r = [BT, BT, BT] @ r1" by (simp only: t r1_def)
  have "s = sp @ r" by (simp add: sp_def r_def)
  then have s: "s = (sp @ [BT, BT, BT]) @ r1"
    using r by simp
  have "take (length (sp @ [BT, BT, BT]) + tail_len r1) ((sp @ [BT, BT, BT]) @ r1)
          = (sp @ [BT, BT, BT]) @ take (tail_len r1) r1"
    by (rule take_append_len)
  moreover have "l = length (sp @ [BT, BT, BT]) + tail_len r1" using l by simp
  ultimately have "take l ((sp @ [BT, BT, BT]) @ r1) = (sp @ [BT, BT, BT]) @ take (tail_len r1) r1"
    by (simp only:)
  then have "take l s = (sp @ [BT, BT, BT]) @ take (tail_len r1) r1"
    using s by (simp only:)
  then have tk: "take l s = sp @ [BT, BT, BT] @ take (tail_len r1) r1"
    by (simp only: append_assoc)
  from tail_len_shape [of r1] obtain tag sp2 nl2 where
    "take (tail_len r1) r1 = tag @ sp2 @ nl2" "\<forall>c\<in>set tag. isWord c" "\<forall>c\<in>set sp2. isSpace c"
    "nl2 = [] \<or> nl2 = [NL]"
    by blast
  moreover have "\<forall>c\<in>set sp. isSpace c" unfolding sp_def by (auto dest: set_takeWhileD)
  ultimately show ?thesis using tk by auto
qed

lemma matchAt_shape:
  assumes "matchAt s = Some l"
  shows "delimiter_shape (take l s)"
proof (cases s)
  case Nil
  with assms show ?thesis by (simp add: matchAt_def fence_Nil)
next
  case (Cons c r)
  from assms Cons consider
      l' where "c = NL" "fence r = Some l'" "l = Suc l'"
    | "fence s = Some l"
    by (cases "c = NL"; cases "fence r") (auto simp: matchAt_Cons)
  then show ?thesis
  proof cases
    case 1
    from fence_shape [OF 1(2)] obtain sp tag sp2 nl2 where
      "take l' r = sp @ [BT, BT, BT] @ tag @ sp2 @ nl2" "\<forall>c\<in>set sp. isSpace c"
      "\<forall>c\<in>set tag. isWord c" "\<forall>c\<in>set sp2. isSpace c" "nl2 = [] \<or> nl2 = [NL]"
      by blast
    moreover have "take l s = [NL] @ take l' r" using 1 Cons by simp
    ultimately have "take l s = [NL] @ sp @ [BT, BT, BT] @ tag @ sp2 @ nl2
        \<and> ([NL] = [] \<or> [NL] = [NL]) \<and> (\<forall>c\<in>set sp. isSpace c) \<and> (\<forall>c\<in>set tag. isWord c)
        \<and> (\<forall>c\<in>set sp2. isSpace c) \<and> (nl2 = [] \<or> nl2 = [NL])"
      by simp
    then show ?thesis unfolding delimiter_shape_def by blast
  next
    case 2
    from fence_shape [OF 2] obtain sp tag sp2 nl2 where
      "take l s = sp @ [BT, BT, BT] @ tag @ sp2 @ nl2" "\<forall>c\<in>set sp. isSpace c"
      "\<forall>c\<in>set tag. isWord c" "\<forall>c\<in>set sp2. isSpace c" "nl2 = [] \<or> nl2 = [NL]"
      by blast
    then have "take l s = [] @ sp @ [BT, BT, BT] @ tag @ sp2 @ nl2" by simp
    then show ?thesis unfolding delimiter_shape_def
      using \<open>\<forall>c\<in>set sp. isSpace c\<close> \<open>\<forall>c\<in>set tag. isWord c\<close> \<open>\<forall>c\<in>set sp2. isSpace c\<close>
        \<open>nl2 = [] \<or> nl2 = [NL]\<close>
      by blast
  qed
qed

lemma matchAll_from_shape:
  "m \<in> set (matchAll_from pos s) \<Longrightarrow> delimiter_shape (matched m)"
proof (induction pos s rule: matchAll_from.induct)
  case (1 pos s)
  from "1.prems" have ne: "s \<noteq> []" by (subst (asm) matchAll_from.simps) (auto split: if_splits)
  show ?case
  proof (cases "matchAt s")
    case None
    from "1.prems" ne None have "m \<in> set (matchAll_from (Suc pos) (tl s))"
      by (subst (asm) matchAll_from.simps) simp
    from "1.IH"(1) [OF ne None this] show ?thesis .
  next
    case (Some l)
    from "1.prems" ne Some have
      "m = \<lparr>index = pos, matched = take l s\<rparr> \<or> m \<in> set (matchAll_from (pos + l) (drop l s))"
      by (subst (asm) matchAll_from.simps) simp
    then show ?thesis
    proof
      assume "m = \<lparr>index = pos, matched = take l s\<rparr>"
      then show ?thesis using matchAt_shape [OF Some] by simp
    next
      assume "m \<in> set (matchAll_from (pos + l) (drop l s))"
      from "1.IH"(2) [OF ne Some this] show ?thesis .
    qed
  qed
qed

lemma shape_three_backticks:
  assumes "delimiter_shape d"
  shows "length (filter (\<lambda>c. c = BT) d) = 3"
proof -
  from assms obtain nl sp tag sp2 nl2 where
    d: "d = nl @ sp @ [BT, BT, BT] @ tag @ sp2 @ nl2"
    and p: "nl = [] \<or> nl = [NL]" "\<forall>c\<in>set sp. isSpace c" "\<forall>c\<in>set tag. isWord c"
      "\<forall>c\<in>set sp2. isSpace c" "nl2 = [] \<or> nl2 = [NL]"
    unfolding delimiter_shape_def by blast
  have 1: "filter (\<lambda>c. c = BT) nl = []" using p(1) by auto
  have 2: "filter (\<lambda>c. c = BT) sp = []" using p(2) not_space_BT by (auto simp: filter_empty_conv)
  have 3: "filter (\<lambda>c. c = BT) tag = []" using p(3) not_word_BT by (auto simp: filter_empty_conv)
  have 4: "filter (\<lambda>c. c = BT) sp2 = []" using p(4) not_space_BT by (auto simp: filter_empty_conv)
  have 5: "filter (\<lambda>c. c = BT) nl2 = []" using p(5) by auto
  show ?thesis unfolding d by (simp add: 1 2 3 4 5)
qed

lemma matchAt_recognises:
  assumes "nl = [] \<or> nl = [NL]" and "\<forall>c\<in>set sp. isSpace c"
  shows "matchAt (nl @ sp @ [BT, BT, BT] @ w) = Some (length nl + length sp + 3 + tail_len w)"
proof -
  have f: "fence (sp @ [BT, BT, BT] @ w) = Some (length sp + 3 + tail_len w)"
    using assms(2) by (rule fence_spaces)
  from assms(1) show ?thesis
  proof
    assume "nl = [NL]"
    then show ?thesis using f by (simp add: matchAt_Cons)
  next
    assume n: "nl = []"
    show ?thesis
    proof (cases sp)
      case Nil
      then show ?thesis using n matchAt_BT [of w] by simp
    next
      case (Cons a sp')
      with assms(2) have "a \<noteq> NL" using not_space_NL by auto
      then show ?thesis using f n Cons by (simp add: matchAt_Cons)
    qed
  qed
qed

lemma extractCode_after_first:
  assumes "matchAll text = m # ms"
  shows "\<exists>rest. drop (index m + length (matched m)) text = extractCode text @ rest"
proof -
  define e where "e = index m + length (matched m)"
  from matchAll_from_Cons [of 0 "text" m ms] assms
  have b: "e \<le> length text" and r: "ms = matchAll_from e (drop e text)"
    by (simp_all add: matchAll_def e_def)
  show ?thesis
  proof (cases ms)
    case Nil
    then have "extractCode text = drop e text"
      using assms b by (simp add: extractCode_def e_def slice_from flip: of_nat_add)
    then show ?thesis unfolding e_def by simp
  next
    case (Cons m2 ms')
    from r Cons have "matchAll_from e (drop e text) = m2 # ms'" by simp
    from matchAll_from_Cons [OF this]
    have c: "e \<le> index m2" "index m2 + length (matched m2) \<le> e + length (drop e text)"
      by blast+
    with b have i2: "index m2 \<le> length text" by simp
    have "extractCode text = take (index m2 - e) (drop e text)"
      using assms Cons c(1) i2
      by (simp add: extractCode_def e_def slice_between flip: of_nat_add)
    then have "drop e text = extractCode text @ drop (index m2 - e) (drop e text)"
      by (simp only: append_take_drop_id)
    then show ?thesis unfolding e_def by blast
  qed
qed

lemma tail_len_BT: "tail_len (BT # w) = 0"
  by (simp add: tail_len_def Let_def not_word_BT not_space_BT)

lemma longer_fence:
  assumes "no_fence (pre @ [BT, BT])"
  shows "\<exists>m ms rest. matchAll (pre @ [BT, BT, BT] @ BT # w) = m # ms
           \<and> index m + length (matched m) = length pre + 3
           \<and> BT # w = extractCode (pre @ [BT, BT, BT] @ BT # w) @ rest"
proof -
  let ?t = "pre @ [BT, BT, BT] @ BT # w"
  from first_match_end [OF assms, of 0 "BT # w"] obtain m ms where
    a: "matchAll ?t = m # ms" and e: "index m + length (matched m) = length pre + 3"
    by (auto simp: matchAll_def tail_len_BT)
  from extractCode_after_first [OF a] obtain rest where
    "drop (index m + length (matched m)) ?t = extractCode ?t @ rest"
    by blast
  moreover have "drop (length (pre @ [BT, BT, BT]) + 0) ((pre @ [BT, BT, BT]) @ BT # w) = BT # w"
    by (simp only: drop_append_len drop_0)
  ultimately have "BT # w = extractCode ?t @ rest" using e by simp
  with a e show ?thesis by blast
qed

section \<open>Auxiliary facts about the streaming loops\<close>

lemma step_not_array:
  "\<not> isZodArray sch \<Longrightarrow>
   step tag partialJSON yaml sch st ev =
     ((case first_content ev of
         None \<Rightarrow> []
       | Some m \<Rightarrow> if m = [] then [] else [tag None (JStr m)]), st)"
  by (cases sch) (auto simp: step_def split: option.splits)

lemma stream_loop_not_array:
  "\<not> isZodArray sch \<Longrightarrow>
   stream_loop tag partialJSON yaml sch st evs = (map (\<lambda>m. tag None (JStr m)) (fragments evs), st)"
  by (induction evs)
    (auto simp: step_not_array fragments_def split: option.splits)

lemma drain_not_array: "\<not> isZodArray sch \<Longrightarrow> drain tag partialJSON yaml sch st = []"
  by (cases sch) (auto simp: drain_def)

lemma accum_loop_closed:
  "accum_loop tag el data i done =
     (validated tag el data i (length data - 1), done + (length data - 1 - i))"
proof (induction tag el data i "done" rule: accum_loop.induct)
  case (1 tag el data i d)
  show ?case
  proof (cases "int i < int (length data) - 1")
    case True
    then have lt: "i < length data - 1" by arith
    have u: "[i..<length data - 1] = i # [Suc i..<length data - 1]"
      using lt by (rule upt_conv_Cons)
    from lt have ar: "Suc (d + (length data - 1 - Suc i)) = d + (length data - 1 - i)" by arith
    show ?thesis
      using True 1 [OF True refl] ar
      by (subst accum_loop.simps)
        (simp add: validated_def u split: option.splits del: One_nat_def)
  next
    case False
    then have "\<not> i < length data - 1" by arith
    then show ?thesis using False
      by (subst accum_loop.simps) (simp add: validated_def del: One_nat_def)
  qed
qed

lemma drain_loop_closed: "drain_loop tag el data i = validated tag el data i (length data)"
proof (induction tag el data i rule: drain_loop.induct)
  case (1 tag el data i)
  show ?case
  proof (cases "i < length data")
    case True
    have u: "[i..<length data] = i # [Suc i..<length data]"
      using True by (rule upt_conv_Cons)
    show ?thesis using True 1 [OF True]
      by (subst drain_loop.simps)
        (simp add: validated_def u split: option.splits)
  next
    case False
    then show ?thesis
      by (subst drain_loop.simps) (simp add: validated_def)
  qed
qed

lemma step_array:
  "first_content ev = Some m \<Longrightarrow> m \<noteq> [] \<Longrightarrow>
   step tag partialJSON yaml (ZodArray el v) st ev =
     (case parseAny partialJSON yaml (extractCode (buffer st @ m)) of
        JArr xs \<Rightarrow>
          (validated tag el xs (itemsDone st) (length xs - 1),
           \<lparr>buffer = buffer st @ m, itemsDone = itemsDone st + (length xs - 1 - itemsDone st)\<rparr>)
      | _ \<Rightarrow> ([], st\<lparr>buffer := buffer st @ m\<rparr>))"
  by (simp add: step_def Let_def accum_loop_closed split: jsval.splits del: One_nat_def)

lemma step_skip:
  "first_content ev = None \<or> first_content ev = Some [] \<Longrightarrow>
   step tag partialJSON yaml sch st ev = ([], st)"
  by (auto simp: step_def)

lemma drain_array:
  "drain tag partialJSON yaml (ZodArray el v) st =
     (case parseAny partialJSON yaml (extractCode (buffer st)) of
        JArr xs \<Rightarrow> validated tag el xs (itemsDone st) (length xs)
      | _ \<Rightarrow> [])"
  by (simp add: drain_def drain_loop_closed split: jsval.splits)

lemma in_set_map_filter:
  "y \<in> set (List.map_filter f xs) \<longleftrightarrow> (\<exists>x\<in>set xs. f x = Some y)"
  by (induction xs) (auto split: option.splits)

lemma set_validated_Pair:
  "(Some j, d) \<in> set (validated Pair el xs lo hi)
     \<longleftrightarrow> lo \<le> j \<and> j < hi \<and> safeParse el (xs ! j) = Some d"
  by (auto simp: validated_def in_set_map_filter)

lemma map_filter_indices:
  "map fst (List.map_filter (\<lambda>j. map_option (Pair (Some j)) (g j)) js)
     = map Some (filter (\<lambda>j. g j \<noteq> None) js)"
  by (induction js) (auto split: option.splits)

lemma validated_indices:
  "map fst (validated Pair el xs lo hi)
     = map Some (filter (\<lambda>j. safeParse el (xs ! j) \<noteq> None) [lo..<hi])"
  unfolding validated_def by (rule map_filter_indices)

lemma sorted_filter_upt: "sorted_wrt (<) (filter P [lo..<hi])"
  by (rule sorted_wrt_filter) simp

lemma step_indices:
  assumes "step Pair partialJSON yaml (ZodArray el v) st ev = (ys, st1)"
  shows "\<exists>js. map fst ys = map Some js \<and> sorted_wrt (<) js
           \<and> (\<forall>j\<in>set js. itemsDone st \<le> j \<and> j < itemsDone st1)
           \<and> itemsDone st \<le> itemsDone st1"
proof (cases "first_content ev = None \<or> first_content ev = Some []")
  case True
  with assms have "ys = []" "st1 = st" by (simp_all add: step_skip)
  then show ?thesis by simp
next
  case False
  then obtain m where m: "first_content ev = Some m" "m \<noteq> []" by auto
  show ?thesis
  proof (cases "parseAny partialJSON yaml (extractCode (buffer st @ m))")
    case (JArr xs)
    define c where "c = itemsDone st"
    define h where "h = length xs - 1"
    from assms JArr have ys: "ys = validated Pair el xs c h"
      and st1: "itemsDone st1 = c + (h - c)"
      by (auto simp: step_array [OF m] c_def h_def simp del: One_nat_def)
    let ?js = "filter (\<lambda>j. safeParse el (xs ! j) \<noteq> None) [c..<h]"
    have "map fst ys = map Some ?js" unfolding ys by (rule validated_indices)
    moreover have "sorted_wrt (<) ?js" by (rule sorted_filter_upt)
    moreover have "\<forall>j\<in>set ?js. c \<le> j \<and> j < itemsDone st1" using st1 by auto
    moreover have "c \<le> itemsDone st1" using st1 by simp
    ultimately show ?thesis unfolding c_def by blast
  qed (use assms in \<open>auto simp: step_array [OF m]\<close>)
qed

lemma stream_loop_indices:
  "stream_loop Pair partialJSON yaml (ZodArray el v) st evs = (ys, st') \<Longrightarrow>
   \<exists>js. map fst ys = map Some js \<and> sorted_wrt (<) js
        \<and> (\<forall>j\<in>set js. itemsDone st \<le> j \<and> j < itemsDone st')
        \<and> itemsDone st \<le> itemsDone st'"
proof (induction evs arbitrary: st ys st')
  case Nil
  then show ?case by simp
next
  case (Cons ev evs)
  obtain ys1 st1 where s1: "step Pair partialJSON yaml (ZodArray el v) st ev = (ys1, st1)"
    by (cases "step Pair partialJSON yaml (ZodArray el v) st ev") auto
  obtain ys2 st2 where s2: "stream_loop Pair partialJSON yaml (ZodArray el v) st1 evs = (ys2, st2)"
    by (cases "stream_loop Pair partialJSON yaml (ZodArray el v) st1 evs") auto
  from Cons.prems s1 s2 have e: "ys = ys1 @ ys2" "st' = st2" by simp_all
  from step_indices [OF s1] obtain js1 where
    j1: "map fst ys1 = map Some js1" "sorted_wrt (<) js1"
      "\<forall>j\<in>set js1. itemsDone st \<le> j \<and> j < itemsDone st1" "itemsDone st \<le> itemsDone st1"
    by blast
  from Cons.IH [OF s2] obtain js2 where
    j2: "map fst ys2 = map Some js2" "sorted_wrt (<) js2"
      "\<forall>j\<in>set js2. itemsDone st1 \<le> j \<and> j < itemsDone st2" "itemsDone st1 \<le> itemsDone st2"
    by blast
  have "map fst ys = map Some (js1 @ js2)" using e j1(1) j2(1) by simp
  moreover have "sorted_wrt (<) (js1 @ js2)"
    using j1(2,3) j2(2,3) by (fastforce simp: sorted_wrt_append)
  moreover have "\<forall>j\<in>set (js1 @ js2). itemsDone st \<le> j \<and> j < itemsDone st'"
    using j1(3,4) j2(3,4) e(2) by fastforce
  moreover have "itemsDone st \<le> itemsDone st'" using j1(4) j2(4) e(2) by simp
  ultimately show ?case by blast
qed

lemma stream_events_indices:
  "\<exists>js. map fst (stream_events Pair partialJSON yaml (ZodArray el v) evs) = map Some js
        \<and> sorted_wrt (<) js"
proof -
  obtain ys st where s: "stream_loop Pair partialJSON yaml (ZodArray el v) init_state evs = (ys, st)"
    by (cases "stream_loop Pair partialJSON yaml (ZodArray el v) init_state evs") auto
  from stream_loop_indices [OF s] obtain js1 where
    j1: "map fst ys = map Some js1" "sorted_wrt (<) js1" "\<forall>j\<in>set js1. j < itemsDone st"
    by blast
  obtain js2 where
    j2: "map fst (drain Pair partialJSON yaml (ZodArray el v) st) = map Some js2"
      "sorted_wrt (<) js2" "\<forall>j\<in>set js2. itemsDone st \<le> j"
  proof (cases "parseAny partialJSON yaml (extractCode (buffer st))")
    case (JArr xs)
    let ?js = "filter (\<lambda>j. safeParse el (xs ! j) \<noteq> None) [itemsDone st..<length xs]"
    have "map fst (drain Pair partialJSON yaml (ZodArray el v) st) = map Some ?js"
      using JArr by (simp add: drain_array validated_indices)
    moreover have "sorted_wrt (<) ?js" by (rule sorted_filter_upt)
    moreover have "\<forall>j\<in>set ?js. itemsDone st \<le> j" by simp
    ultimately show ?thesis by (rule that)
  qed (use that [of "[]"] in \<open>simp_all add: drain_array\<close>)
  have "map fst (stream_events Pair partialJSON yaml (ZodArray el v) evs) = map Some (js1 @ js2)"
    using s j1(1) j2(1) by (simp add: stream_events_def)
  moreover have "sorted_wrt (<) (js1 @ js2)"
    using j1(2,3) j2(2,3) by (fastforce simp: sorted_wrt_append)
  ultimately show ?thesis by blast
qed

lemma map_filter_cong_set:
  "(\<And>x. x \<in> set xs \<Longrightarrow> f x = g x) \<Longrightarrow> List.map_filter f xs = List.map_filter g xs"
  by (induction xs) (auto split: option.splits)

lemma map_filter_append_list:
  "List.map_filter f (xs @ ys) = List.map_filter f xs @ List.map_filter f ys"
  by (induction xs) (auto split: option.splits)

lemma validated_cong:
  "(\<And>j. lo \<le> j \<Longrightarrow> j < hi \<Longrightarrow> xs ! j = ys ! j)
   \<Longrightarrow> validated tag el xs lo hi = validated tag el ys lo hi"
  unfolding validated_def by (rule map_filter_cong_set) simp

lemma validated_append:
  "lo \<le> mid \<Longrightarrow> mid \<le> hi
   \<Longrightarrow> validated tag el xs lo mid @ validated tag el xs mid hi = validated tag el xs lo hi"
proof -
  assume a: "lo \<le> mid" "mid \<le> hi"
  then have "[lo..<hi] = [lo..<mid] @ [mid..<hi]"
    by (metis le_Suc_ex upt_add_eq_append)
  then show ?thesis by (simp add: validated_def map_filter_append_list)
qed

lemma validated_empty: "hi \<le> lo \<Longrightarrow> validated tag el xs lo hi = []"
  by (simp add: validated_def)

lemma map_filter_tag:
  "List.map_filter (\<lambda>j. map_option (tag (Some j)) (g j)) js
     = map (\<lambda>(i, d). tag i d) (List.map_filter (\<lambda>j. map_option (Pair (Some j)) (g j)) js)"
  by (induction js) (auto split: option.splits)

lemma validated_tag:
  "validated tag el xs lo hi = map (\<lambda>(i, d). tag i d) (validated Pair el xs lo hi)"
  unfolding validated_def by (rule map_filter_tag)

lemma map_filter_nth:
  "List.map_filter (\<lambda>j. map_option (\<lambda>v. v) (f (g j))) js = List.map_filter f (map g js)"
  by (induction js) (auto split: option.splits)

lemma validated_plain_all: "validated plain el ys 0 (length ys) = List.map_filter (safeParse el) ys"
proof -
  have "validated plain el ys 0 (length ys)
          = List.map_filter (safeParse el) (map (\<lambda>j. ys ! j) [0..<length ys])"
    unfolding validated_def plain_def by (rule map_filter_nth)
  then show ?thesis by (simp add: map_nth)
qed

lemma fragments_Cons:
  "fragments (ev # evs) =
     (case first_content ev of
        None \<Rightarrow> fragments evs
      | Some m \<Rightarrow> if m = [] then fragments evs else m # fragments evs)"
  by (simp add: fragments_def split: option.splits)

lemma stream_loop_drain_stable:
  assumes "parseAny partialJSON yaml (extractCode (buffer st @ concat (fragments evs))) = JArr ys"
    and "prefix_stable partialJSON yaml ys (buffer st) (fragments evs)"
    and "itemsDone st \<le> length ys"
    and "stream_loop tag partialJSON yaml (ZodArray el v) st evs = (out, st')"
  shows "out @ drain tag partialJSON yaml (ZodArray el v) st'
           = validated tag el ys (itemsDone st) (length ys)"
  using assms
proof (induction evs arbitrary: st out)
  case Nil
  then show ?case by (simp add: fragments_def drain_array)
next
  case (Cons ev evs)
  obtain ys1 st1 where s1: "step tag partialJSON yaml (ZodArray el v) st ev = (ys1, st1)"
    by (cases "step tag partialJSON yaml (ZodArray el v) st ev") auto
  obtain ys2 where s2: "stream_loop tag partialJSON yaml (ZodArray el v) st1 evs = (ys2, st')"
    and out: "out = ys1 @ ys2"
    using Cons.prems(4) s1 by (auto split: prod.splits)
  show ?case
  proof (cases "first_content ev = None \<or> first_content ev = Some []")
    case True
    then have fr: "fragments (ev # evs) = fragments evs" by (auto simp: fragments_Cons)
    from True s1 have e: "ys1 = []" "st1 = st" by (simp_all add: step_skip)
    from Cons.IH [of st ys2] Cons.prems(1-3) s2 fr e out show ?thesis by simp
  next
    case False
    then obtain m where m: "first_content ev = Some m" "m \<noteq> []" by auto
    then have fr: "fragments (ev # evs) = m # fragments evs" by (simp add: fragments_Cons)
    let ?b = "buffer st @ m"
    have fin: "parseAny partialJSON yaml (extractCode (?b @ concat (fragments evs))) = JArr ys"
      using Cons.prems(1) fr by simp
    have stab: "prefix_stable partialJSON yaml ys ?b (fragments evs)"
      using Cons.prems(2) fr by simp
    show ?thesis
    proof (cases "parseAny partialJSON yaml (extractCode ?b)")
      case (JArr xs)
      define c where "c = itemsDone st"
      define h where "h = length xs - 1"
      from s1 JArr have ys1: "ys1 = validated tag el xs c h"
        and st1: "st1 = \<lparr>buffer = ?b, itemsDone = c + (h - c)\<rparr>"
        by (simp_all add: step_array [OF m] c_def h_def del: One_nat_def)
      from Cons.prems(2) fr JArr have hy: "h \<le> length ys" and tk: "take h xs = take h ys"
        by (simp_all add: h_def del: One_nat_def)
      have agree: "xs ! j = ys ! j" if "j < h" for j
      proof -
        have "xs ! j = take h xs ! j" using that by simp
        also have "\<dots> = take h ys ! j" by (simp only: tk)
        also have "\<dots> = ys ! j" using that by simp
        finally show ?thesis .
      qed
      have y1: "ys1 = validated tag el ys c h"
        unfolding ys1 by (rule validated_cong) (rule agree)
      have c1: "itemsDone st1 \<le> length ys" using st1 hy Cons.prems(3) by (simp add: c_def)
      have rest: "ys2 @ drain tag partialJSON yaml (ZodArray el v) st'
                    = validated tag el ys (c + (h - c)) (length ys)"
        using Cons.IH [of st1 ys2] fin stab c1 s2 by (simp add: st1)
      have "validated tag el ys c h @ validated tag el ys (c + (h - c)) (length ys)
              = validated tag el ys c (length ys)"
      proof (cases "c \<le> h")
        case True
        then show ?thesis using hy by (simp add: validated_append)
      next
        case False
        then show ?thesis by (simp add: validated_empty)
      qed
      then show ?thesis using out y1 rest by (simp add: c_def)
    next
      case JNull
      with s1 have e: "ys1 = []" "st1 = st\<lparr>buffer := ?b\<rparr>" by (simp_all add: step_array [OF m])
      from Cons.IH [of st1 ys2] fin stab Cons.prems(3) s2 e out show ?thesis by simp
    next
      case (JBool x)
      with s1 have e: "ys1 = []" "st1 = st\<lparr>buffer := ?b\<rparr>" by (simp_all add: step_array [OF m])
      from Cons.IH [of st1 ys2] fin stab Cons.prems(3) s2 e out show ?thesis by simp
    next
      case (JNum x)
      with s1 have e: "ys1 = []" "st1 = st\<lparr>buffer := ?b\<rparr>" by (simp_all add: step_array [OF m])
      from Cons.IH [of st1 ys2] fin stab Cons.prems(3) s2 e out show ?thesis by simp
    next
      case (JStr x)
      with s1 have e: "ys1 = []" "st1 = st\<lparr>buffer := ?b\<rparr>" by (simp_all add: step_array [OF m])
      from Cons.IH [of st1 ys2] fin stab Cons.prems(3) s2 e out show ?thesis by simp
    next
      case (JObj x)
      with s1 have e: "ys1 = []" "st1 = st\<lparr>buffer := ?b\<rparr>" by (simp_all add: step_array [OF m])
      from Cons.IH [of st1 ys2] fin stab Cons.prems(3) s2 e out show ?thesis by simp
    qed
  qed
qed

lemma stream_events_stable:
  assumes "parseAny partialJSON yaml (extractCode (concat (fragments evs))) = JArr ys"
    and "prefix_stable partialJSON yaml ys [] (fragments evs)"
  shows "stream_events tag partialJSON yaml (ZodArray el v) evs = validated tag el ys 0 (length ys)"
proof -
  obtain out st' where
    s: "stream_loop tag partialJSON yaml (ZodArray el v) init_state evs = (out, st')"
    by (cases "stream_loop tag partialJSON yaml (ZodArray el v) init_state evs") auto
  have "out @ drain tag partialJSON yaml (ZodArray el v) st'
          = validated tag el ys (itemsDone init_state) (length ys)"
    using assms s by (intro stream_loop_drain_stable) (simp_all add: init_state_def)
  then show ?thesis using s by (simp add: stream_events_def init_state_def)
qed

lemma step_tag:
  "step tag partialJSON yaml sch st ev =
     (map (\<lambda>(i, d). tag i d) (fst (step Pair partialJSON yaml sch st ev)),
      snd (step Pair partialJSON yaml sch st ev))"
proof (cases "first_content ev = None \<or> first_content ev = Some []")
  case True
  then show ?thesis by (simp add: step_skip)
next
  case False
  then obtain m where m: "first_content ev = Some m" "m \<noteq> []" by auto
  show ?thesis
  proof (cases "isZodArray sch")
    case True
    then obtain el v where sch: "sch = ZodArray el v" by (cases sch) auto
    show ?thesis unfolding sch step_array [OF m]
      by (simp add: validated_tag [of tag] split: jsval.splits del: One_nat_def)
  next
    case False
    then show ?thesis using m by (simp add: step_not_array)
  qed
qed

lemma stream_loop_tag:
  "stream_loop tag partialJSON yaml sch st evs =
     (map (\<lambda>(i, d). tag i d) (fst (stream_loop Pair partialJSON yaml sch st evs)),
      snd (stream_loop Pair partialJSON yaml sch st evs))"
proof (induction evs arbitrary: st)
  case Nil
  show ?case by simp
next
  case (Cons ev evs)
  show ?case
    by (simp add: step_tag [of tag] Cons.IH [of "snd (step Pair partialJSON yaml sch st ev)"]
        split: prod.splits)
qed

lemma drain_tag:
  "drain tag partialJSON yaml sch st = map (\<lambda>(i, d). tag i d) (drain Pair partialJSON yaml sch st)"
proof (cases "isZodArray sch")
  case True
  then obtain el v where sch: "sch = ZodArray el v" by (cases sch) auto
  show ?thesis unfolding sch drain_array
    by (simp add: validated_tag [of tag] split: jsval.splits)
next
  case False
  then show ?thesis by (simp add: drain_not_array)
qed

lemma stream_events_tag:
  "stream_events tag partialJSON yaml sch evs =
     map (\<lambda>(i, d). tag i d) (stream_events Pair partialJSON yaml sch evs)"
  by (simp add: stream_events_def stream_loop_tag [of tag] drain_tag [of tag] split: prod.splits)

lemma stream_erase:
  "stream partialJSON yaml p args = map snd (stream_tagged Pair partialJSON yaml p args)"
proof -
  have "(\<lambda>(i, d). plain i d) = snd" by (rule ext) (simp add: plain_def split: prod.splits)
  then show ?thesis
    by (simp add: stream_def stream_tagged_def stream_events_tag [of plain])
qed

lemma step_cursor_mono: "itemsDone st \<le> itemsDone (snd (step tag partialJSON yaml sch st ev))"
proof (cases "first_content ev = None \<or> first_content ev = Some []")
  case True
  then show ?thesis by (simp add: step_skip)
next
  case False
  then obtain m where m: "first_content ev = Some m" "m \<noteq> []" by auto
  show ?thesis
  proof (cases "isZodArray sch")
    case True
    then obtain el v where sch: "sch = ZodArray el v" by (cases sch) auto
    show ?thesis unfolding sch step_array [OF m] by (simp split: jsval.splits)
  next
    case False
    then show ?thesis by (simp add: step_not_array)
  qed
qed

lemma stream_loop_buffer:
  "buffer (snd (stream_loop tag partialJSON yaml (ZodArray el v) st evs))
     = buffer st @ concat (fragments evs)"
proof (induction evs arbitrary: st)
  case Nil
  show ?case by (simp add: fragments_def)
next
  case (Cons ev evs)
  show ?case
  proof (cases "first_content ev = None \<or> first_content ev = Some []")
    case True
    then have fr: "fragments (ev # evs) = fragments evs" by (auto simp: fragments_Cons)
    from True show ?thesis
      by (simp add: step_skip fr Cons.IH split_beta)
  next
    case False
    then obtain m where m: "first_content ev = Some m" "m \<noteq> []" by auto
    then have fr: "fragments (ev # evs) = m # fragments evs" by (simp add: fragments_Cons)
    have b: "buffer (snd (step tag partialJSON yaml (ZodArray el v) st ev)) = buffer st @ m"
      by (simp add: step_array [OF m] split: jsval.splits)
    show ?thesis
      using Cons.IH [of "snd (step tag partialJSON yaml (ZodArray el v) st ev)"] b
      by (simp add: fr split_beta)
  qed
qed

lemma stream_loop_spec:
  "stream_loop tag partialJSON yaml (ZodArray el v) st evs = (out, st') \<Longrightarrow>
   out @ drain tag partialJSON yaml (ZodArray el v) st'
     = spec_sequence tag partialJSON yaml el (buffer st) (itemsDone st) (fragments evs)"
proof (induction evs arbitrary: st out)
  case Nil
  then show ?case by (simp add: fragments_def drain_array)
next
  case (Cons ev evs)
  obtain ys1 st1 where s1: "step tag partialJSON yaml (ZodArray el v) st ev = (ys1, st1)"
    by (cases "step tag partialJSON yaml (ZodArray el v) st ev") auto
  obtain ys2 where s2: "stream_loop tag partialJSON yaml (ZodArray el v) st1 evs = (ys2, st')"
    and out: "out = ys1 @ ys2"
    using Cons.prems s1 by (auto split: prod.splits)
  note ih = Cons.IH [OF s2]
  show ?case
  proof (cases "first_content ev = None \<or> first_content ev = Some []")
    case True
    then have fr: "fragments (ev # evs) = fragments evs" by (auto simp: fragments_Cons)
    from True s1 have e: "ys1 = []" "st1 = st" by (simp_all add: step_skip)
    from ih fr e out show ?thesis by simp
  next
    case False
    then obtain m where m: "first_content ev = Some m" "m \<noteq> []" by auto
    then have fr: "fragments (ev # evs) = m # fragments evs" by (simp add: fragments_Cons)
    show ?thesis
    proof (cases "parseAny partialJSON yaml (extractCode (buffer st @ m))")
      case (JArr xs)
      from s1 JArr have "ys1 = validated tag el xs (itemsDone st) (length xs - 1)"
        and "st1 = \<lparr>buffer = buffer st @ m,
                    itemsDone = itemsDone st + (length xs - 1 - itemsDone st)\<rparr>"
        by (simp_all add: step_array [OF m] del: One_nat_def)
      with ih out JArr show ?thesis by (simp add: fr del: One_nat_def)
    qed (use s1 ih out in \<open>auto simp: step_array [OF m] fr\<close>)
  qed
qed

lemma stream_events_spec:
  "stream_events tag partialJSON yaml (ZodArray el v) evs
     = spec_sequence tag partialJSON yaml el [] 0 (fragments evs)"
proof -
  obtain out st' where
    s: "stream_loop tag partialJSON yaml (ZodArray el v) init_state evs = (out, st')"
    by (cases "stream_loop tag partialJSON yaml (ZodArray el v) init_state evs") auto
  from stream_loop_spec [OF s] s show ?thesis
    by (simp add: stream_events_def init_state_def)
qed

lemma stream_loop_midstream:
  assumes "stream_loop Pair partialJSON yaml (ZodArray el v) st evs = (out, st')"
    and "(Some j, d) \<in> set out"
  shows "\<exists>k xs. 0 < k \<and> k \<le> length (fragments evs)
           \<and> parseAny partialJSON yaml (extractCode (buffer st @ concat (take k (fragments evs))))
               = JArr xs
           \<and> Suc j < length xs \<and> safeParse el (xs ! j) = Some d"
  using assms
proof (induction evs arbitrary: st out)
  case Nil
  then show ?case by simp
next
  case (Cons ev evs)
  obtain ys1 st1 where s1: "step Pair partialJSON yaml (ZodArray el v) st ev = (ys1, st1)"
    by (cases "step Pair partialJSON yaml (ZodArray el v) st ev") auto
  obtain ys2 where s2: "stream_loop Pair partialJSON yaml (ZodArray el v) st1 evs = (ys2, st')"
    and out: "out = ys1 @ ys2"
    using Cons.prems(1) s1 by (auto split: prod.splits)
  show ?case
  proof (cases "first_content ev = None \<or> first_content ev = Some []")
    case True
    then have fr: "fragments (ev # evs) = fragments evs" by (auto simp: fragments_Cons)
    from True s1 have e: "ys1 = []" "st1 = st" by (simp_all add: step_skip)
    from Cons.IH [of st ys2] s2 e out Cons.prems(2) fr show ?thesis by simp
  next
    case False
    then obtain m where m: "first_content ev = Some m" "m \<noteq> []" by auto
    then have fr: "fragments (ev # evs) = m # fragments evs" by (simp add: fragments_Cons)
    have b1: "buffer st1 = buffer st @ m"
      using s1 by (auto simp: step_array [OF m] split: jsval.splits)
    from Cons.prems(2) out consider "(Some j, d) \<in> set ys1" | "(Some j, d) \<in> set ys2" by auto
    then show ?thesis
    proof cases
      case 1
      then obtain xs where c: "parseAny partialJSON yaml (extractCode (buffer st @ m)) = JArr xs"
        and y: "ys1 = validated Pair el xs (itemsDone st) (length xs - 1)"
        using s1 by (cases "parseAny partialJSON yaml (extractCode (buffer st @ m))")
          (auto simp: step_array [OF m] simp del: One_nat_def)
      from 1 y have "Suc j < length xs \<and> safeParse el (xs ! j) = Some d"
        by (auto simp: set_validated_Pair simp del: One_nat_def)
      with c have "0 < (1::nat) \<and> 1 \<le> length (fragments (ev # evs))
          \<and> parseAny partialJSON yaml
               (extractCode (buffer st @ concat (take 1 (fragments (ev # evs))))) = JArr xs
          \<and> Suc j < length xs \<and> safeParse el (xs ! j) = Some d"
        by (simp add: fr)
      then show ?thesis by blast
    next
      case 2
      from Cons.IH [OF s2 2] obtain k xs where
        k: "0 < k" "k \<le> length (fragments evs)"
        "parseAny partialJSON yaml (extractCode (buffer st1 @ concat (take k (fragments evs))))
           = JArr xs"
        "Suc j < length xs" "safeParse el (xs ! j) = Some d"
        by blast
      then have "0 < Suc k \<and> Suc k \<le> length (fragments (ev # evs))
          \<and> parseAny partialJSON yaml
               (extractCode (buffer st @ concat (take (Suc k) (fragments (ev # evs))))) = JArr xs
          \<and> Suc j < length xs \<and> safeParse el (xs ! j) = Some d"
        by (simp add: fr b1)
      then show ?thesis by blast
    qed
  qed
qed

lemma stream_events_origin:
  assumes "(Some j, d) \<in> set (stream_events Pair partialJSON yaml (ZodArray el v) evs)"
  shows "\<exists>k xs. k \<le> length (fragments evs)
           \<and> parseAny partialJSON yaml (extractCode (concat (take k (fragments evs)))) = JArr xs
           \<and> j < length xs \<and> safeParse el (xs ! j) = Some d"
proof -
  obtain out st' where
    s: "stream_loop Pair partialJSON yaml (ZodArray el v) init_state evs = (out, st')"
    by (cases "stream_loop Pair partialJSON yaml (ZodArray el v) init_state evs") auto
  from assms s consider "(Some j, d) \<in> set out"
    | "(Some j, d) \<in> set (drain Pair partialJSON yaml (ZodArray el v) st')"
    by (auto simp: stream_events_def)
  then show ?thesis
  proof cases
    case 1
    from stream_loop_midstream [OF s 1] obtain k xs where
      "k \<le> length (fragments evs)"
      "parseAny partialJSON yaml (extractCode (concat (take k (fragments evs)))) = JArr xs"
      "Suc j < length xs" "safeParse el (xs ! j) = Some d"
      by (auto simp: init_state_def)
    then have "k \<le> length (fragments evs)
        \<and> parseAny partialJSON yaml (extractCode (concat (take k (fragments evs)))) = JArr xs
        \<and> j < length xs \<and> safeParse el (xs ! j) = Some d"
      by simp
    then show ?thesis by blast
  next
    case 2
    have b: "buffer st' = concat (fragments evs)"
      using stream_loop_buffer [of Pair partialJSON yaml el v init_state evs] s
      by (simp add: init_state_def)
    from 2 obtain xs where
      c: "parseAny partialJSON yaml (extractCode (concat (fragments evs))) = JArr xs"
      and y: "(Some j, d) \<in> set (validated Pair el xs (itemsDone st') (length xs))"
      by (cases "parseAny partialJSON yaml (extractCode (buffer st'))")
        (auto simp: drain_array b)
    from y have "j < length xs \<and> safeParse el (xs ! j) = Some d"
      by (simp add: set_validated_Pair)
    with c have "length (fragments evs) \<le> length (fragments evs)
        \<and> parseAny partialJSON yaml
             (extractCode (concat (take (length (fragments evs)) (fragments evs)))) = JArr xs
        \<and> j < length xs \<and> safeParse el (xs ! j) = Some d"
      by simp
    then show ?thesis by blast
  qed
qed

section \<open>Properties of the block extractor\<close>

text \<open>
  C5. The delimiters of a text are the matches of the fence expression, from left to
  right. With no delimiter \<open>extractCode\<close> returns the text unchanged; with exactly one, the
  text splits into what precedes the delimiter, the delimiter, and the result, which is
  everything after the delimiter; with two or more, the text splits into what precedes
  the first delimiter, the first delimiter, the result, the second delimiter and a rest,
  so the result is exactly the text between the first and the second delimiter, whatever
  follows.
\<close>

theorem extractCode_cases:
  "(matchAll text = [] \<longrightarrow> extractCode text = text)
   \<and> (\<forall>m. matchAll text = [m] \<longrightarrow>
         (\<exists>pre. text = pre @ matched m @ extractCode text \<and> length pre = index m))
   \<and> (\<forall>m1 m2 ms. matchAll text = m1 # m2 # ms \<longrightarrow>
         (\<exists>pre rest. text = pre @ matched m1 @ extractCode text @ matched m2 @ rest
            \<and> length pre = index m1
            \<and> length (pre @ matched m1 @ extractCode text) = index m2))"
proof (intro conjI allI impI)
  assume "matchAll text = []"
  then show "extractCode text = text" by (simp add: extractCode_def)
next
  fix m
  assume a: "matchAll text = [m]"
  define i where "i = index m"
  define l where "l = length (matched m)"
  from matchAll_from_Cons [of 0 "text" m "[]"] a
  have b: "i + l \<le> length text" and mt: "matched m = take l (drop i text)"
    by (simp_all add: matchAll_def i_def l_def)
  have e: "extractCode text = drop (i + l) text"
    using a b by (simp add: extractCode_def i_def l_def slice_from flip: of_nat_add)
  have "drop i text = take l (drop i text) @ drop (i + l) text"
    using drop_split [of i "i + l" "text"] by simp
  then have "text = take i text @ matched m @ extractCode text"
    using mt e by (metis append_take_drop_id)
  moreover have "length (take i text) = index m" using b by (simp add: i_def)
  ultimately show "\<exists>pre. text = pre @ matched m @ extractCode text \<and> length pre = index m"
    by blast
next
  fix m1 m2 ms
  assume a: "matchAll text = m1 # m2 # ms"
  define i1 where "i1 = index m1"
  define l1 where "l1 = length (matched m1)"
  define i2 where "i2 = index m2"
  define l2 where "l2 = length (matched m2)"
  from matchAll_from_Cons [of 0 "text" m1 "m2 # ms"] a
  have b1: "i1 + l1 \<le> length text" and mt1: "matched m1 = take l1 (drop i1 text)"
    and r: "matchAll_from (i1 + l1) (drop (i1 + l1) text) = m2 # ms"
    by (simp_all add: matchAll_def i1_def l1_def)
  from matchAll_from_Cons [OF r]
  have c: "i1 + l1 \<le> i2" "i2 + l2 \<le> i1 + l1 + length (drop (i1 + l1) text)"
    "matched m2 = take l2 (drop (i2 - (i1 + l1)) (drop (i1 + l1) text))"
    unfolding i2_def l2_def by blast+
  from c(1,2) b1 have b2: "i1 + l1 \<le> i2" "i2 + l2 \<le> length text" by simp_all
  from c(1) have "drop (i2 - (i1 + l1)) (drop (i1 + l1) text) = drop i2 text" by simp
  with c(3) have mt2: "matched m2 = take l2 (drop i2 text)" by simp
  have e: "extractCode text = take (i2 - (i1 + l1)) (drop (i1 + l1) text)"
    using a b2 by (simp add: extractCode_def i1_def l1_def i2_def slice_between flip: of_nat_add)
  have s1: "drop i1 text = matched m1 @ drop (i1 + l1) text"
    using drop_split [of i1 "i1 + l1" "text"] mt1 by simp
  have s2: "drop (i1 + l1) text = extractCode text @ drop i2 text"
    using drop_split [OF b2(1), of "text"] e by simp
  have s3: "drop i2 text = matched m2 @ drop (i2 + l2) text"
    using drop_split [of i2 "i2 + l2" "text"] mt2 by simp
  have "text = take i1 text @ drop i1 text" by simp
  then have t: "text = take i1 text @ matched m1 @ extractCode text @ matched m2 @ drop (i2 + l2) text"
    using s1 s2 s3 by simp
  have le: "length (take i1 text) = index m1" using b1 by (simp add: i1_def)
  have "length (extractCode text) = i2 - (i1 + l1)" using e b2 by simp
  then have "length (take i1 text @ matched m1 @ extractCode text) = index m2"
    using le b2 by (simp add: i1_def l1_def i2_def)
  with t le show "\<exists>pre rest. text = pre @ matched m1 @ extractCode text @ matched m2 @ rest
            \<and> length pre = index m1
            \<and> length (pre @ matched m1 @ extractCode text) = index m2"
    by blast
qed

theorem extractCode_cases_witness:
  "extractCode ''hi'' = ''hi''
   \<and> (\<exists>pre. ''[1,2,3]```[4]'' = pre @ ''```'' @ extractCode ''[1,2,3]```[4]'' \<and> length pre = 7)
   \<and> (\<exists>pre rest. example_text
          = pre @ (NL # ''```json'' @ [NL]) @ extractCode example_text @ (NL # ''```'') @ rest
        \<and> length pre = 12
        \<and> length (pre @ (NL # ''```json'' @ [NL]) @ extractCode example_text) = 28)"
proof -
  have a: "matchAll ''hi'' = []"
    by code_simp
  have b: "matchAll ''[1,2,3]```[4]'' = [\<lparr>index = 7, matched = ''```''\<rparr>]"
    by code_simp
  have c: "matchAll example_text
             = [\<lparr>index = 12, matched = NL # ''```json'' @ [NL]\<rparr>,
                \<lparr>index = 28, matched = NL # ''```''\<rparr>]"
    by code_simp
  from a extractCode_cases [of "''hi''"]
  have 1: "extractCode ''hi'' = ''hi''"
    by blast
  from b extractCode_cases [of "''[1,2,3]```[4]''"]
  have "\<exists>pre. ''[1,2,3]```[4]''
           = pre @ matched \<lparr>index = 7, matched = ''```''\<rparr> @ extractCode ''[1,2,3]```[4]''
         \<and> length pre = index \<lparr>index = 7, matched = ''```''\<rparr>"
    by blast
  then have 2: "\<exists>pre. ''[1,2,3]```[4]'' = pre @ ''```'' @ extractCode ''[1,2,3]```[4]''
         \<and> length pre = 7"
    by simp
  from c extractCode_cases [of example_text]
  have "\<exists>pre rest. example_text
          = pre @ matched \<lparr>index = 12, matched = NL # ''```json'' @ [NL]\<rparr>
              @ extractCode example_text @ matched \<lparr>index = 28, matched = NL # ''```''\<rparr> @ rest
        \<and> length pre = index \<lparr>index = 12, matched = NL # ''```json'' @ [NL]\<rparr>
        \<and> length (pre @ matched \<lparr>index = 12, matched = NL # ''```json'' @ [NL]\<rparr>
                    @ extractCode example_text)
            = index \<lparr>index = 28, matched = NL # ''```''\<rparr>"
    by blast
  then have 3: "\<exists>pre rest. example_text
          = pre @ (NL # ''```json'' @ [NL]) @ extractCode example_text @ (NL # ''```'') @ rest
        \<and> length pre = 12
        \<and> length (pre @ (NL # ''```json'' @ [NL]) @ extractCode example_text) = 28"
    by simp
  from 1 2 3 show ?thesis by blast
qed

text \<open>
  C6, as amended. A delimiter is found exactly when the text holds three consecutive
  backticks, on a line of their own or not. Every delimiter found has the shape: an
  optional newline, spaces, exactly three backticks, a tag of word characters, spaces, an
  optional newline; and every text that starts with an optional newline, spaces and three
  backticks is matched there. For a block opened by three backticks, a tag and spaces up
  to the end of the line, and closed by a line of spaces and three backticks, where three
  consecutive backticks occur neither before the opening fence nor in the body, the result
  is exactly the body. Of a fence of more than three backticks only the first three are
  the delimiter: it ends after the third, and the result starts at the fourth. The claim
  as stated fails for such a fence.
\<close>

theorem extractCode_fence_delimiters:
  "(matchAll text = [] \<longleftrightarrow> \<not> (\<exists>u w. text = u @ [BT, BT, BT] @ w))
   \<and> (\<forall>m\<in>set (matchAll text).
         delimiter_shape (matched m) \<and> length (filter (\<lambda>c. c = BT) (matched m)) = 3)
   \<and> ((nl = [] \<or> nl = [NL]) \<and> (\<forall>c\<in>set sp. isSpace c)
      \<longrightarrow> matchAt (nl @ sp @ [BT, BT, BT] @ w) = Some (length nl + length sp + 3 + tail_len w))
   \<and> (no_fence (pre @ [BT, BT]) \<and> (\<forall>c\<in>set tag. isWord c) \<and> (\<forall>c\<in>set sp1. isSpace c)
        \<and> no_fence body \<and> (\<forall>c\<in>set sp2. isSpace c)
      \<longrightarrow> extractCode
            (pre @ [BT, BT, BT] @ tag @ sp1 @ [NL] @ body @ [NL] @ sp2 @ [BT, BT, BT] @ post)
          = body)
   \<and> (no_fence (pre @ [BT, BT])
      \<longrightarrow> (\<exists>m ms rest. matchAll (pre @ [BT, BT, BT] @ BT # w) = m # ms
             \<and> index m + length (matched m) = length pre + 3
             \<and> BT # w = extractCode (pre @ [BT, BT, BT] @ BT # w) @ rest))"
proof (intro conjI ballI impI)
  show "matchAll text = [] \<longleftrightarrow> \<not> (\<exists>u w. text = u @ [BT, BT, BT] @ w)"
    by (rule matchAll_Nil_iff)
next
  fix m assume "m \<in> set (matchAll text)"
  then show "delimiter_shape (matched m)"
    unfolding matchAll_def by (rule matchAll_from_shape)
  then show "length (filter (\<lambda>c. c = BT) (matched m)) = 3"
    by (rule shape_three_backticks)
next
  assume "(nl = [] \<or> nl = [NL]) \<and> (\<forall>c\<in>set sp. isSpace c)"
  then show "matchAt (nl @ sp @ [BT, BT, BT] @ w) = Some (length nl + length sp + 3 + tail_len w)"
    by (intro matchAt_recognises) simp_all
next
  assume "no_fence (pre @ [BT, BT]) \<and> (\<forall>c\<in>set tag. isWord c) \<and> (\<forall>c\<in>set sp1. isSpace c)
        \<and> no_fence body \<and> (\<forall>c\<in>set sp2. isSpace c)"
  then show "extractCode
            (pre @ [BT, BT, BT] @ tag @ sp1 @ [NL] @ body @ [NL] @ sp2 @ [BT, BT, BT] @ post)
          = body"
    by (intro extractCode_block) simp_all
next
  assume "no_fence (pre @ [BT, BT])"
  then show "\<exists>m ms rest. matchAll (pre @ [BT, BT, BT] @ BT # w) = m # ms
             \<and> index m + length (matched m) = length pre + 3
             \<and> BT # w = extractCode (pre @ [BT, BT, BT] @ BT # w) @ rest"
    by (rule longer_fence)
qed

theorem extractCode_fence_delimiters_witness:
  "extractCode (''Sure: `x` ```json '' @ [NL] @ ''[`1`]'' @ [NL] @ ''  ```bye'') = ''[`1`]''
   \<and> delimiter_shape ('' ```json '' @ [NL])
   \<and> matchAt ([NL] @ ''  '' @ ''```'' @ ''bye'') = Some 9
   \<and> (\<exists>rest. ''`'' @ [NL] @ ''[1]'' = extractCode (''````'' @ [NL] @ ''[1]'') @ rest)"
proof -
  let ?t = "''Sure: `x` ```json '' @ [NL] @ ''[`1`]'' @ [NL] @ ''  ```bye''"
  note inst = extractCode_fence_delimiters
    [of ?t "[NL]" "''  ''" "''bye''" "''Sure: `x` ''" "''json''" "'' ''" "''[`1`]''" "''  ''" "''bye''"]
  have h: "no_fence (''Sure: `x` '' @ [BT, BT]) \<and> (\<forall>c\<in>set ''json''. isWord c)
        \<and> (\<forall>c\<in>set '' ''. isSpace c) \<and> no_fence ''[`1`]'' \<and> (\<forall>c\<in>set ''  ''. isSpace c)"
    by (simp add: isWord_def isSpace_def)
  from h inst
  have "extractCode (''Sure: `x` '' @ [BT, BT, BT] @ ''json'' @ '' '' @ [NL] @ ''[`1`]'' @ [NL]
           @ ''  '' @ [BT, BT, BT] @ ''bye'') = ''[`1`]''"
    by blast
  then have 1: "extractCode ?t = ''[`1`]''" by simp
  have ma: "\<lparr>index = 9, matched = '' ```json '' @ [NL]\<rparr> \<in> set (matchAll ?t)"
    by code_simp
  from ma inst have "delimiter_shape (matched \<lparr>index = 9, matched = '' ```json '' @ [NL]\<rparr>)"
    by blast
  then have 2: "delimiter_shape ('' ```json '' @ [NL])" by simp
  have g: "([NL] = [] \<or> [NL] = [NL]) \<and> (\<forall>c\<in>set ''  ''. isSpace c)"
    by (simp add: isSpace_def)
  from g inst have "matchAt ([NL] @ ''  '' @ [BT, BT, BT] @ ''bye'')
      = Some (length [NL] + length ''  '' + 3 + tail_len ''bye'')"
    by blast
  moreover have "length [NL] + length ''  '' + 3 + tail_len ''bye'' = 9"
    by code_simp
  ultimately have 3: "matchAt ([NL] @ ''  '' @ ''```'' @ ''bye'') = Some 9" by simp
  have n: "no_fence ([] @ [BT, BT])" by simp
  from n extractCode_fence_delimiters
    [of "[]" "[]" "[]" "NL # ''[1]''" "[]" "[]" "[]" "[]" "[]" "[]"]
  have "\<exists>rest. BT # NL # ''[1]'' = extractCode ([] @ [BT, BT, BT] @ BT # NL # ''[1]'') @ rest"
    by blast
  then have 4: "\<exists>rest. ''`'' @ [NL] @ ''[1]'' = extractCode (''````'' @ [NL] @ ''[1]'') @ rest"
    by simp
  from 1 2 3 4 show ?thesis by blast
qed

theorem extractCode_fence_delimiters_counterexample:
  "extractCode (''````'' @ [NL] @ ''[1]'' @ [NL] @ ''````'') = ''`'' @ [NL] @ ''[1]''
   \<and> extractCode (''````'' @ [NL] @ ''[1]'' @ [NL] @ ''````'') \<noteq> ''[1]''"
  by code_simp

section \<open>Properties of the streaming pipeline\<close>

text \<open>
  C1, as amended. For an object schema, \<open>stream\<close> yields every non-empty text fragment
  unchanged, in arrival order, while the fragments arrive (no extraction, parsing or
  validation takes place) and yields nothing after the last fragment. The claim as stated,
  that nothing is yielded at all, fails on a stream of one fragment.
\<close>

theorem stream_object_raw:
  "isZodObject (schema p) \<Longrightarrow>
   stream partialJSON yaml p args = map JStr (fragments (events_of p args))
   \<and> fst (stream_loop plain partialJSON yaml (schema p) init_state (events_of p args))
       = map JStr (fragments (events_of p args))
   \<and> (\<forall>st. drain plain partialJSON yaml (schema p) st = [])"
proof -
  assume "isZodObject (schema p)"
  then have na: "\<not> isZodArray (schema p)" by (cases "schema p") auto
  have "plain None = (\<lambda>v. v)" by (rule ext) (simp add: plain_def)
  then have pl: "(\<lambda>m. plain None (JStr m)) = JStr" by simp
  show ?thesis
    by (simp add: stream_def stream_tagged_def stream_events_def events_of_def
        stream_loop_not_array [OF na] drain_not_array [OF na] pl)
qed

theorem stream_object_raw_witness:
  "stream no_decoder no_decoder
     (fixed_prompt (ZodObject accept_all) [] [[Some ''{''], [None], [], [Some []], [Some ''}'']]) ()
     = [JStr ''{'', JStr ''}'']"
proof -
  have a: "isZodObject (schema (fixed_prompt (ZodObject accept_all) []
             [[Some ''{''], [None], [], [Some []], [Some ''}'']]))"
    by (simp add: fixed_prompt_def)
  have b: "fragments (events_of (fixed_prompt (ZodObject accept_all) []
             [[Some ''{''], [None], [], [Some []], [Some ''}'']]) ()) = [''{'', ''}'']"
    by (simp add: fragments_def events_of_def fixed_prompt_def fixed_client_def first_content_def)
  from stream_object_raw [OF a, of no_decoder no_decoder "()"] b show ?thesis by simp
qed

theorem stream_object_counterexample:
  "stream no_decoder no_decoder
     (fixed_prompt (ZodObject accept_all) [] [[Some ''{'']]) () = [JStr ''{'']
   \<and> stream no_decoder no_decoder
     (fixed_prompt (ZodObject accept_all) [] [[Some ''{'']]) () \<noteq> []"
  by code_simp

text \<open>
  C2. Under an array schema, for every sequence of events, what \<open>stream\<close> yields is what the
  specification's streaming of a sequence yields over the non-empty fragments, starting
  from the empty buffer and cursor 0; the buffer after the loop is the concatenation of
  the fragments, and every element yielded inside the loop is a valid element, at an index
  before the last, of the candidate array parsed from the buffer accumulated at some
  fragment. In a single step, on a non-empty fragment whose accumulated buffer parses to an
  array \<open>xs\<close>, the handler yields, in order, the validated elements at the indices from the
  cursor up to but excluding the last index, the cursor advances by one for every index
  visited, valid or not, and no yielded element comes from the last index. After the last
  fragment, when the buffer parses to an array, the remaining elements from the cursor to
  the end of the array are validated and yielded.
\<close>

theorem stream_sequence_emission:
  "stream_events tag partialJSON yaml (ZodArray el v) evs
     = spec_sequence tag partialJSON yaml el [] 0 (fragments evs)
   \<and> (schema p = ZodArray el v \<longrightarrow>
        stream partialJSON yaml p args
          = spec_sequence plain partialJSON yaml el [] 0 (fragments (events_of p args)))
   \<and> buffer (snd (stream_loop tag partialJSON yaml (ZodArray el v) init_state evs))
       = concat (fragments evs)
   \<and> (\<forall>j d. (Some j, d) \<in> set (fst (stream_loop Pair partialJSON yaml (ZodArray el v) init_state evs))
        \<longrightarrow> (\<exists>k xs. 0 < k \<and> k \<le> length (fragments evs)
               \<and> parseAny partialJSON yaml (extractCode (concat (take k (fragments evs)))) = JArr xs
               \<and> Suc j < length xs \<and> safeParse el (xs ! j) = Some d))
   \<and> (first_content ev = Some m \<and> m \<noteq> [] \<longrightarrow>
        (\<forall>xs. parseAny partialJSON yaml (extractCode (buffer st @ m)) = JArr xs \<longrightarrow>
            step tag partialJSON yaml (ZodArray el v) st ev =
              (validated tag el xs (itemsDone st) (length xs - 1),
               \<lparr>buffer = buffer st @ m,
                itemsDone = itemsDone st + length [itemsDone st..<length xs - 1]\<rparr>)
            \<and> (\<forall>j d. (Some j, d) \<in> set (fst (step Pair partialJSON yaml (ZodArray el v) st ev))
                  \<longrightarrow> itemsDone st \<le> j \<and> Suc j < length xs \<and> safeParse el (xs ! j) = Some d)))
   \<and> (\<forall>xs. parseAny partialJSON yaml (extractCode (buffer st)) = JArr xs \<longrightarrow>
         drain tag partialJSON yaml (ZodArray el v) st
           = validated tag el xs (itemsDone st) (length xs))"
proof (intro conjI)
  show "stream_events tag partialJSON yaml (ZodArray el v) evs
     = spec_sequence tag partialJSON yaml el [] 0 (fragments evs)"
    by (rule stream_events_spec)
  show "schema p = ZodArray el v \<longrightarrow>
        stream partialJSON yaml p args
          = spec_sequence plain partialJSON yaml el [] 0 (fragments (events_of p args))"
    by (simp add: stream_def stream_tagged_def events_of_def stream_events_spec)
  show "buffer (snd (stream_loop tag partialJSON yaml (ZodArray el v) init_state evs))
       = concat (fragments evs)"
    by (simp add: stream_loop_buffer init_state_def)
  show "\<forall>j d. (Some j, d) \<in> set (fst (stream_loop Pair partialJSON yaml (ZodArray el v) init_state evs))
        \<longrightarrow> (\<exists>k xs. 0 < k \<and> k \<le> length (fragments evs)
               \<and> parseAny partialJSON yaml (extractCode (concat (take k (fragments evs)))) = JArr xs
               \<and> Suc j < length xs \<and> safeParse el (xs ! j) = Some d)"
  proof (intro allI impI)
    fix j d
    assume a: "(Some j, d) \<in> set (fst (stream_loop Pair partialJSON yaml (ZodArray el v) init_state evs))"
    obtain out st' where
      s: "stream_loop Pair partialJSON yaml (ZodArray el v) init_state evs = (out, st')"
      by (cases "stream_loop Pair partialJSON yaml (ZodArray el v) init_state evs") auto
    from a s have "(Some j, d) \<in> set out" by simp
    from stream_loop_midstream [OF s this]
    show "\<exists>k xs. 0 < k \<and> k \<le> length (fragments evs)
               \<and> parseAny partialJSON yaml (extractCode (concat (take k (fragments evs)))) = JArr xs
               \<and> Suc j < length xs \<and> safeParse el (xs ! j) = Some d"
      by (simp add: init_state_def)
  qed
  show "first_content ev = Some m \<and> m \<noteq> [] \<longrightarrow>
        (\<forall>xs. parseAny partialJSON yaml (extractCode (buffer st @ m)) = JArr xs \<longrightarrow>
            step tag partialJSON yaml (ZodArray el v) st ev =
              (validated tag el xs (itemsDone st) (length xs - 1),
               \<lparr>buffer = buffer st @ m,
                itemsDone = itemsDone st + length [itemsDone st..<length xs - 1]\<rparr>)
            \<and> (\<forall>j d. (Some j, d) \<in> set (fst (step Pair partialJSON yaml (ZodArray el v) st ev))
                  \<longrightarrow> itemsDone st \<le> j \<and> Suc j < length xs \<and> safeParse el (xs ! j) = Some d))"
    by (auto simp: step_array set_validated_Pair simp del: One_nat_def)
  show "\<forall>xs. parseAny partialJSON yaml (extractCode (buffer st)) = JArr xs \<longrightarrow>
         drain tag partialJSON yaml (ZodArray el v) st
           = validated tag el xs (itemsDone st) (length xs)"
    by (simp add: drain_array)
qed

theorem stream_sequence_emission_witness:
  "stream demo_decoder no_decoder
     (fixed_prompt (ZodArray z_number all_numbers) [] example_events) ()
     = [JNum 1, JNum 2, JNum 3]
   \<and> (\<exists>k xs. 0 < k \<and> k \<le> length (fragments example_events)
         \<and> parseAny demo_decoder no_decoder
              (extractCode (concat (take k (fragments example_events)))) = JArr xs
         \<and> Suc 0 < length xs \<and> safeParse z_number (xs ! 0) = Some (JNum 1))
   \<and> step plain demo_decoder no_decoder (ZodArray z_number all_numbers)
       \<lparr>buffer = ''[1,'', itemsDone = 0\<rparr> [Some ''2,3]'']
       = ([JNum 1, JNum 2], \<lparr>buffer = ''[1,2,3]'', itemsDone = 2\<rparr>)
   \<and> drain plain demo_decoder no_decoder (ZodArray z_number all_numbers)
       \<lparr>buffer = ''[1,'', itemsDone = 0\<rparr> = [JNum 1]"
proof -
  let ?st = "\<lparr>buffer = ''[1,'', itemsDone = 0\<rparr>"
  let ?xs = "[JNum 1, JNum 2, JNum 3]"
  let ?p = "fixed_prompt (ZodArray z_number all_numbers) [] example_events"
  note inst = stream_sequence_emission [of plain demo_decoder no_decoder z_number all_numbers
      example_events ?p "()" "[Some ''2,3]'']" "''2,3]''" ?st]
  have s: "schema ?p = ZodArray z_number all_numbers"
    by (simp add: fixed_prompt_def)
  have f: "fragments (events_of ?p ()) = fragments example_events"
    by (simp add: events_of_def fixed_prompt_def fixed_client_def)
  have sp: "spec_sequence plain demo_decoder no_decoder z_number [] 0 (fragments example_events)
              = ?xs"
    by code_simp
  from inst s have "stream demo_decoder no_decoder ?p ()
      = spec_sequence plain demo_decoder no_decoder z_number [] 0 (fragments (events_of ?p ()))"
    by blast
  then have 1: "stream demo_decoder no_decoder ?p () = ?xs"
    by (simp only: f sp)
  have mem: "(Some 0, JNum 1) \<in> set (fst (stream_loop Pair demo_decoder no_decoder
               (ZodArray z_number all_numbers) init_state example_events))"
    by code_simp
  from mem inst
  have 2: "\<exists>k xs. 0 < k \<and> k \<le> length (fragments example_events)
         \<and> parseAny demo_decoder no_decoder
              (extractCode (concat (take k (fragments example_events)))) = JArr xs
         \<and> Suc 0 < length xs \<and> safeParse z_number (xs ! 0) = Some (JNum 1)"
    by blast
  have a: "first_content [Some ''2,3]''] = Some ''2,3]'' \<and> ''2,3]'' \<noteq> []"
    by (simp add: first_content_def)
  have b: "parseAny demo_decoder no_decoder (extractCode (buffer ?st @ ''2,3]'')) = JArr ?xs"
    by code_simp
  have c: "parseAny demo_decoder no_decoder (extractCode (buffer ?st)) = JArr [JNum 1]"
    by code_simp
  from a b c inst
  have q: "step plain demo_decoder no_decoder (ZodArray z_number all_numbers) ?st [Some ''2,3]'']
             = (validated plain z_number ?xs (itemsDone ?st) (length ?xs - 1),
                \<lparr>buffer = buffer ?st @ ''2,3]'',
                 itemsDone = itemsDone ?st + length [itemsDone ?st..<length ?xs - 1]\<rparr>)"
    and r: "drain plain demo_decoder no_decoder (ZodArray z_number all_numbers) ?st
             = validated plain z_number [JNum 1] (itemsDone ?st) (length [JNum 1])"
    by blast+
  have d: "(validated plain z_number ?xs (itemsDone ?st) (length ?xs - 1),
            \<lparr>buffer = buffer ?st @ ''2,3]'',
             itemsDone = itemsDone ?st + length [itemsDone ?st..<length ?xs - 1]\<rparr>)
           = ([JNum 1, JNum 2], \<lparr>buffer = ''[1,2,3]'', itemsDone = 2\<rparr>)"
    by code_simp
  have e: "validated plain z_number [JNum 1] (itemsDone ?st) (length [JNum 1]) = [JNum 1]"
    by code_simp
  from 1 2 trans [OF q d] trans [OF r e] show ?thesis by blast
qed

text \<open>
  C3, as amended. The cursor never decreases in a step; over a whole stream under an array
  schema the indices of the yielded elements are strictly increasing, so no index is
  yielded twice and elements come in ascending index order; and a step whose candidate
  value is an array of \<open>n\<close> elements leaves the cursor at the larger of its old value and
  \<open>n - 1\<close>, hence at most \<open>n\<close> provided it was at most \<open>n\<close> before. The claim as stated, that the
  cursor never exceeds the number of elements of the current candidate value, fails when
  a later candidate array is shorter than an earlier one.
\<close>

theorem stream_cursor_invariants:
  "itemsDone st \<le> itemsDone (snd (step tag partialJSON yaml sch st ev))
   \<and> (\<exists>js. map fst (stream_events Pair partialJSON yaml (ZodArray el v) evs) = map Some js
          \<and> sorted_wrt (<) js)
   \<and> (\<forall>m xs. first_content ev = Some m \<and> m \<noteq> []
          \<and> parseAny partialJSON yaml (extractCode (buffer st @ m)) = JArr xs \<longrightarrow>
        itemsDone (snd (step tag partialJSON yaml (ZodArray el v) st ev))
          = max (itemsDone st) (length xs - 1)
        \<and> (itemsDone st \<le> length xs \<longrightarrow>
             itemsDone (snd (step tag partialJSON yaml (ZodArray el v) st ev)) \<le> length xs))"
proof (intro conjI allI impI)
  show "itemsDone st \<le> itemsDone (snd (step tag partialJSON yaml sch st ev))"
    by (rule step_cursor_mono)
  show "\<exists>js. map fst (stream_events Pair partialJSON yaml (ZodArray el v) evs) = map Some js
          \<and> sorted_wrt (<) js"
    by (rule stream_events_indices)
next
  fix m xs
  assume a: "first_content ev = Some m \<and> m \<noteq> []
          \<and> parseAny partialJSON yaml (extractCode (buffer st @ m)) = JArr xs"
  then have m: "first_content ev = Some m" "m \<noteq> []" by simp_all
  from a show c: "itemsDone (snd (step tag partialJSON yaml (ZodArray el v) st ev))
          = max (itemsDone st) (length xs - 1)"
    by (simp add: step_array [OF m] del: One_nat_def)
  assume "itemsDone st \<le> length xs"
  then show "itemsDone (snd (step tag partialJSON yaml (ZodArray el v) st ev)) \<le> length xs"
    unfolding c by simp
qed

theorem stream_cursor_invariants_witness:
  "itemsDone (snd (step plain demo_decoder no_decoder (ZodArray z_number all_numbers)
      init_state [Some ''[1,2,3]''])) = 2"
proof -
  have a: "first_content [Some ''[1,2,3]''] = Some ''[1,2,3]'' \<and> ''[1,2,3]'' \<noteq> []
           \<and> parseAny demo_decoder no_decoder (extractCode (buffer init_state @ ''[1,2,3]''))
               = JArr [JNum 1, JNum 2, JNum 3]"
    by code_simp
  have b: "itemsDone init_state = 0"
    by (simp add: init_state_def)
  from stream_cursor_invariants [of init_state plain demo_decoder no_decoder
      "ZodArray z_number all_numbers" "[Some ''[1,2,3]'']" z_number all_numbers "[]"]
  have "itemsDone (snd (step plain demo_decoder no_decoder (ZodArray z_number all_numbers)
      init_state [Some ''[1,2,3]'']))
        = max (itemsDone init_state) (length [JNum 1, JNum 2, JNum 3] - 1)"
    using a by blast
  then show ?thesis using b by simp
qed

theorem stream_cursor_counterexample:
  "itemsDone (snd (stream_loop plain demo_decoder no_decoder (ZodArray z_number all_numbers)
       init_state [[Some ''[1,2,3]''], [Some ''```[4]'']])) = 2
   \<and> parseAny demo_decoder no_decoder
       (extractCode (buffer (snd (stream_loop plain demo_decoder no_decoder
          (ZodArray z_number all_numbers) init_state [[Some ''[1,2,3]''], [Some ''```[4]'']]))))
       = JArr [JNum 4]"
  by code_simp

text \<open>
  C4, as amended. Under an array schema the indices of the yielded elements are strictly
  increasing (\<open>stream\<close> yields the values without their indices), and every yielded element
  is the validated element, at its index, of the candidate array parsed from the
  concatenation of some prefix of the fragments. When the fragments are prefix-stable
  towards the array \<open>ys\<close> that the concatenated text parses to, the yielded elements are
  exactly the valid elements of \<open>ys\<close> in order, at exactly the indices of \<open>ys\<close> whose element is
  valid, and \<open>run\<close> on the concatenated text validates that same array as a whole. The claim
  as stated fails twice: the first index is not 0 when the first element is invalid, and
  the yielded elements differ from the batch array when a later fragment moves the
  extracted window.
\<close>

theorem stream_refines_run:
  assumes "schema p = ZodArray el v"
  shows "(\<exists>js. map fst (stream_tagged Pair partialJSON yaml p args) = map Some js
            \<and> sorted_wrt (<) js)
         \<and> stream partialJSON yaml p args = map snd (stream_tagged Pair partialJSON yaml p args)
         \<and> (\<forall>j d. (Some j, d) \<in> set (stream_tagged Pair partialJSON yaml p args) \<longrightarrow>
              (\<exists>k xs. k \<le> length (fragments (events_of p args))
                 \<and> parseAny partialJSON yaml
                      (extractCode (concat (take k (fragments (events_of p args))))) = JArr xs
                 \<and> j < length xs \<and> safeParse el (xs ! j) = Some d))
         \<and> (\<forall>ys. parseAny partialJSON yaml (extractCode (concat (fragments (events_of p args))))
                    = JArr ys
                \<and> prefix_stable partialJSON yaml ys [] (fragments (events_of p args))
              \<longrightarrow> stream partialJSON yaml p args = List.map_filter (safeParse el) ys
                \<and> map fst (stream_tagged Pair partialJSON yaml p args)
                    = map Some (filter (\<lambda>j. safeParse el (ys ! j) \<noteq> None) [0..<length ys])
                \<and> (message_of p args = Some (concat (fragments (events_of p args)))
                     \<longrightarrow> run partialJSON yaml p args = v (JArr ys)))"
proof (intro conjI allI impI)
  show "\<exists>js. map fst (stream_tagged Pair partialJSON yaml p args) = map Some js
          \<and> sorted_wrt (<) js"
    unfolding stream_tagged_def Let_def assms by (rule stream_events_indices)
  show "stream partialJSON yaml p args = map snd (stream_tagged Pair partialJSON yaml p args)"
    by (rule stream_erase)
next
  fix j d
  assume "(Some j, d) \<in> set (stream_tagged Pair partialJSON yaml p args)"
  then have "(Some j, d) \<in> set (stream_events Pair partialJSON yaml (ZodArray el v) (events_of p args))"
    by (simp add: stream_tagged_def assms events_of_def)
  then show "\<exists>k xs. k \<le> length (fragments (events_of p args))
                 \<and> parseAny partialJSON yaml
                      (extractCode (concat (take k (fragments (events_of p args))))) = JArr xs
                 \<and> j < length xs \<and> safeParse el (xs ! j) = Some d"
    by (rule stream_events_origin)
next
  fix ys
  assume a: "parseAny partialJSON yaml (extractCode (concat (fragments (events_of p args))))
                    = JArr ys
                \<and> prefix_stable partialJSON yaml ys [] (fragments (events_of p args))"
  then have fin: "parseAny partialJSON yaml (extractCode (concat (fragments (events_of p args))))
                    = JArr ys"
    and stab: "prefix_stable partialJSON yaml ys [] (fragments (events_of p args))"
    by simp_all
  have ev: "stream_tagged tag partialJSON yaml p args
              = validated tag el ys 0 (length ys)" for tag :: "nat option \<Rightarrow> jsval \<Rightarrow> 'd"
    using stream_events_stable [OF fin stab, of tag el v]
    by (simp add: stream_tagged_def assms events_of_def)
  show "stream partialJSON yaml p args = List.map_filter (safeParse el) ys"
    by (simp add: stream_def ev validated_plain_all)
  show "map fst (stream_tagged Pair partialJSON yaml p args)
          = map Some (filter (\<lambda>j. safeParse el (ys ! j) \<noteq> None) [0..<length ys])"
    by (simp add: ev validated_indices)
  assume "message_of p args = Some (concat (fragments (events_of p args)))"
  then show "run partialJSON yaml p args = v (JArr ys)"
    using fin by (simp add: run_def message_of_def assms Let_def)
qed

theorem stream_refines_run_witness:
  "stream demo_decoder no_decoder
     (fixed_prompt (ZodArray z_number all_numbers) [Some example_text] example_events) ()
     = [JNum 1, JNum 2, JNum 3]
   \<and> run demo_decoder no_decoder
       (fixed_prompt (ZodArray z_number all_numbers) [Some example_text] example_events) ()
     = Some (JArr [JNum 1, JNum 2, JNum 3])
   \<and> (\<exists>k xs. k \<le> length (fragments example_events)
         \<and> parseAny demo_decoder no_decoder
              (extractCode (concat (take k (fragments example_events)))) = JArr xs
         \<and> 2 < length xs \<and> safeParse z_number (xs ! 2) = Some (JNum 3))"
proof -
  let ?p = "fixed_prompt (ZodArray z_number all_numbers) [Some example_text] example_events"
  let ?ys = "[JNum 1, JNum 2, JNum 3]"
  have s: "schema ?p = ZodArray z_number all_numbers"
    by (simp add: fixed_prompt_def)
  note inst = stream_refines_run [OF s, of demo_decoder no_decoder "()"]
  have f: "fragments (events_of ?p ()) = fragments example_events"
    by (simp add: events_of_def fixed_prompt_def fixed_client_def)
  have c: "concat (fragments example_events) = example_text"
    by code_simp
  have m: "message_of ?p () = Some example_text"
    by (simp add: message_of_def fixed_prompt_def fixed_client_def first_content_def)
  have d: "parseAny demo_decoder no_decoder (extractCode example_text) = JArr ?ys"
    by code_simp
  have t: "prefix_stable demo_decoder no_decoder ?ys [] (fragments example_events)"
    by code_simp
  have h: "parseAny demo_decoder no_decoder (extractCode (concat (fragments (events_of ?p ()))))
               = JArr ?ys
           \<and> prefix_stable demo_decoder no_decoder ?ys [] (fragments (events_of ?p ()))"
    unfolding f c using d t by blast
  have h2: "message_of ?p () = Some (concat (fragments (events_of ?p ())))"
    unfolding f c by (rule m)
  have v: "List.map_filter (safeParse z_number) ?ys = ?ys"
    by code_simp
  have w: "all_numbers (JArr ?ys) = Some (JArr ?ys)"
    by code_simp
  from h h2 inst
  have "stream demo_decoder no_decoder ?p () = List.map_filter (safeParse z_number) ?ys
        \<and> run demo_decoder no_decoder ?p () = all_numbers (JArr ?ys)"
    by blast
  then have 1: "stream demo_decoder no_decoder ?p () = ?ys
        \<and> run demo_decoder no_decoder ?p () = Some (JArr ?ys)"
    by (simp only: v w)
  have mem: "(Some 2, JNum 3) \<in> set (stream_tagged Pair demo_decoder no_decoder ?p ())"
    by code_simp
  from mem inst
  have "\<exists>k xs. k \<le> length (fragments (events_of ?p ()))
         \<and> parseAny demo_decoder no_decoder
              (extractCode (concat (take k (fragments (events_of ?p ()))))) = JArr xs
         \<and> 2 < length xs \<and> safeParse z_number (xs ! 2) = Some (JNum 3)"
    by blast
  then have 2: "\<exists>k xs. k \<le> length (fragments example_events)
         \<and> parseAny demo_decoder no_decoder
              (extractCode (concat (take k (fragments example_events)))) = JArr xs
         \<and> 2 < length xs \<and> safeParse z_number (xs ! 2) = Some (JNum 3)"
    by (simp only: f)
  from 1 2 show ?thesis by blast
qed

theorem stream_refines_run_counterexample:
  "map fst (stream_tagged Pair demo_decoder no_decoder
       (fixed_prompt (ZodArray z_number all_numbers) [Some ''[null,2,3]''] [[Some ''[null,2,3]'']]) ())
     = [Some 1, Some 2]
   \<and> stream demo_decoder no_decoder
       (fixed_prompt (ZodArray z_number all_numbers) [Some ''[1,2,3]```[4]'']
          [[Some ''[1,2,3]''], [Some ''```[4]'']]) ()
     = [JNum 1, JNum 2]
   \<and> run demo_decoder no_decoder
       (fixed_prompt (ZodArray z_number all_numbers) [Some ''[1,2,3]```[4]'']
          [[Some ''[1,2,3]''], [Some ''```[4]'']]) ()
     = Some (JArr [JNum 4])"
  by code_simp

section \<open>Properties of the parser, the batch pipeline and the client\<close>

text \<open>
  C7. \<open>parseAny\<close> always returns a value, in a fixed priority order: the partial-JSON
  decoding when it succeeds, otherwise the YAML decoding when it succeeds, otherwise the
  input string itself. No outcome of the two decoders makes it fail.
\<close>

theorem parseAny_priority:
  "(\<forall>v. partialJSON text = Some v \<longrightarrow> parseAny partialJSON yaml text = v)
   \<and> (\<forall>v. partialJSON text = None \<and> yaml text = Some v \<longrightarrow> parseAny partialJSON yaml text = v)
   \<and> (partialJSON text = None \<and> yaml text = None \<longrightarrow> parseAny partialJSON yaml text = JStr text)"
  by (simp add: parseAny_def)

theorem parseAny_priority_witness:
  "parseAny (\<lambda>t. Some JNull) no_decoder ''null'' = JNull
   \<and> parseAny no_decoder (\<lambda>t. Some (JNum 1)) ''1'' = JNum 1
   \<and> parseAny no_decoder no_decoder ''a: ['' = JStr ''a: [''"
  using parseAny_priority [of "\<lambda>t. Some JNull" "''null''" no_decoder]
    parseAny_priority [of no_decoder "''1''" "\<lambda>t. Some (JNum 1)"]
    parseAny_priority [of no_decoder "''a: [''" no_decoder]
  by (simp add: no_decoder_def)

text \<open>
  C8. When the response carries no textual content, \<open>run\<close> returns absent whatever the
  decoders and the schema are. Otherwise it returns the outcome of validating the one
  candidate value against the whole schema: the typed value exactly when validation
  succeeds, absent otherwise.
\<close>

theorem run_absent_or_validated:
  "(message_of p args = None \<longrightarrow> run partialJSON yaml p args = None)
   \<and> (\<forall>msg. message_of p args = Some msg \<longrightarrow>
         run partialJSON yaml p args =
           safeParse (schema p)
             (if isZodString (schema p) then JStr msg
              else if isZodArray (schema p) \<or> isZodObject (schema p)
                   then parseAny partialJSON yaml (extractCode msg)
                   else parseAny partialJSON yaml msg))"
  by (cases "schema p") (auto simp: run_def message_of_def Let_def split: option.splits)

theorem run_absent_or_validated_witness:
  "run no_decoder no_decoder (fixed_prompt (ZodObject accept_all) [None] []) () = None
   \<and> run no_decoder no_decoder (fixed_prompt (ZodObject accept_all) [Some ''hi''] []) ()
       = Some (JStr ''hi'')"
proof -
  have a: "message_of (fixed_prompt (ZodObject accept_all) [None] []) () = None"
    by (simp add: message_of_def fixed_prompt_def fixed_client_def first_content_def)
  have b: "message_of (fixed_prompt (ZodObject accept_all) [Some ''hi''] []) () = Some ''hi''"
    by (simp add: message_of_def fixed_prompt_def fixed_client_def first_content_def)
  have c: "extractCode ''hi'' = ''hi''"
    by code_simp
  from a b c
    run_absent_or_validated [of "fixed_prompt (ZodObject accept_all) [None] []" "()"
      no_decoder no_decoder]
    run_absent_or_validated [of "fixed_prompt (ZodObject accept_all) [Some ''hi''] []" "()"
      no_decoder no_decoder]
  show ?thesis
    by (simp add: fixed_prompt_def parseAny_def no_decoder_def accept_all_def)
qed

text \<open>
  C9. For a schema that is neither a string, an array nor an object schema, \<open>run\<close> applies
  no fence extraction and validates the candidate value parsed from the whole message.
\<close>

theorem run_other_schema:
  "schema p = ZodOther v \<Longrightarrow> message_of p args = Some msg
   \<Longrightarrow> run partialJSON yaml p args = v (parseAny partialJSON yaml msg)"
  by (simp add: run_def message_of_def Let_def)

theorem run_other_schema_witness:
  "run no_decoder no_decoder (fixed_prompt (ZodOther accept_all) [Some ''```[7]```''] []) ()
     = Some (JStr ''```[7]```'')
   \<and> extractCode ''```[7]```'' = ''[7]''"
proof -
  have a: "schema (fixed_prompt (ZodOther accept_all) [Some ''```[7]```''] []) = ZodOther accept_all"
    by (simp add: fixed_prompt_def)
  have b: "message_of (fixed_prompt (ZodOther accept_all) [Some ''```[7]```''] []) ()
             = Some ''```[7]```''"
    by (simp add: message_of_def fixed_prompt_def fixed_client_def first_content_def)
  have c: "extractCode ''```[7]```'' = ''[7]''"
    by code_simp
  from run_other_schema [OF a b, of no_decoder no_decoder] c show ?thesis
    by (simp add: parseAny_def no_decoder_def accept_all_def)
qed

text \<open>
  C10. A prompt created on a client that has a default model uses the client's model,
  whatever model its own options name; the model of the options is used only when the
  client has none. (A client model that is the empty string is still preferred to the
  options', and is then rejected as missing.)
\<close>

theorem prompt_model_priority:
  "(\<forall>m. pp_model pp = Some m \<and> m \<noteq> [] \<longrightarrow>
        (\<exists>p. prompt pp tmpl options = Inr p \<and> model p = m))
   \<and> (\<forall>p m. prompt pp tmpl options = Inr p \<and> pp_model pp = Some m \<longrightarrow> model p = m)
   \<and> (\<forall>p. prompt pp tmpl options = Inr p \<and> pp_model pp = None \<longrightarrow>
          (\<exists>opts. options = Some opts \<and> po_model opts = Some (model p)))
   \<and> (pp_model pp = Some [] \<longrightarrow> prompt pp tmpl options = Inl MissingModel)"
  by (auto simp: prompt_def new_Prompt_def Let_def split: option.splits if_splits)

theorem prompt_model_priority_witness:
  "(\<exists>p. prompt \<lparr>pp_openai = fixed_client [] [], pp_model = Some ''default''\<rparr> (\<lambda>u::unit. ''ask'')
           (Some \<lparr>po_model = Some ''other'', po_schema = None\<rparr>) = Inr p
        \<and> model p = ''default'')
   \<and> prompt \<lparr>pp_openai = fixed_client [] [], pp_model = Some []\<rparr> (\<lambda>u::unit. ''ask'')
           (Some \<lparr>po_model = Some ''other'', po_schema = None\<rparr>) = Inl MissingModel"
proof -
  have a: "pp_model \<lparr>pp_openai = fixed_client [] [], pp_model = Some ''default''\<rparr> = Some ''default''
           \<and> ''default'' \<noteq> []"
    by simp
  have b: "pp_model \<lparr>pp_openai = fixed_client [] [], pp_model = Some []\<rparr> = Some []"
    by simp
  have c: "\<exists>p. prompt \<lparr>pp_openai = fixed_client [] [], pp_model = Some ''default''\<rparr>
             (\<lambda>u::unit. ''ask'') (Some \<lparr>po_model = Some ''other'', po_schema = None\<rparr>) = Inr p
           \<and> model p = ''default''"
    using a prompt_model_priority
      [of "\<lparr>pp_openai = fixed_client [] [], pp_model = Some ''default''\<rparr>"
        "\<lambda>u::unit. ''ask''" "Some \<lparr>po_model = Some ''other'', po_schema = None\<rparr>"]
    by blast
  have d: "prompt \<lparr>pp_openai = fixed_client [] [], pp_model = Some []\<rparr> (\<lambda>u::unit. ''ask'')
           (Some \<lparr>po_model = Some ''other'', po_schema = None\<rparr>) = Inl MissingModel"
    using b prompt_model_priority
      [of "\<lparr>pp_openai = fixed_client [] [], pp_model = Some []\<rparr>"
        "\<lambda>u::unit. ''ask''" "Some \<lparr>po_model = Some ''other'', po_schema = None\<rparr>"]
    by blast
  from c d show ?thesis by blast
qed

end
